theory Spec2Isabelle
  imports Main
begin

section \<open>The scratch-file buffer of ed (buf.c)\<close>

text \<open>
  A shallow embedding of \<^verbatim>\<open>src/buf.c\<close>: the scratch file with its cached position
  \<^verbatim>\<open>sfpos\<close> and the flag \<^verbatim>\<open>seek_write\<close>, the circular doubly-linked queue of line
  nodes around the static node \<^verbatim>\<open>buffer_head\<close>, and the one-entry address cache that
  lives in the static variables of \<^verbatim>\<open>get_addressed_line_node\<close>.

  The file-scope and function-scope statics of the C file, together with the two
  globals \<^verbatim>\<open>current_addr\<close> and \<^verbatim>\<open>addr_last\<close> it uses, are the fields of one
  state record that every function takes and returns.  \<^verbatim>\<open>translit_text\<close> and \<^verbatim>\<open>quit\<close>
  are not modelled.
\<close>

subsection \<open>Pointers and line nodes\<close>

text \<open>
  A \<^verbatim>\<open>line_t *\<close> is the null pointer, the address of the static \<^verbatim>\<open>buffer_head\<close>, or
  the address of a node that \<^verbatim>\<open>malloc\<close> returned.
\<close>

datatype ptr = Null | Buffer_head | Node nat

text \<open>
  \<^verbatim>\<open>line_t\<close> is declared in \<^verbatim>\<open>ed.h\<close>; buf.c uses the fields \<^verbatim>\<open>q_forw\<close>, \<^verbatim>\<open>q_back\<close>,
  \<^verbatim>\<open>adr\<close> (a \<^verbatim>\<open>tp_ftell\<close>, signed: \<^verbatim>\<open>sfpos\<close> of the same type is set to -1) and
  \<^verbatim>\<open>llen\<close>.
\<close>

record line_t =
  q_forw :: ptr
  q_back :: ptr
  adr :: int
  llen :: nat

subsection \<open>The stdio stream\<close>

text \<open>
  The scratch file behind \<^verbatim>\<open>FILE *sfp\<close>: its bytes and the file position indicator
  of the stream (the real file position, as opposed to the program's copy \<^verbatim>\<open>sfpos\<close>).
\<close>

record stream =
  bytes :: "char list"
  fpos :: nat

text \<open>
  What the environment does to one call.  Every failure of a library call makes the
  calling function return at once, so one call of a function of buf.c meets at most one
  of them: \<^verbatim>\<open>malloc\<close>/\<^verbatim>\<open>realloc\<close> returning NULL, \<^verbatim>\<open>mkstemp\<close>/\<^verbatim>\<open>fdopen\<close> failing,
  \<^verbatim>\<open>fseek\<close> returning -1, \<^verbatim>\<open>fread\<close>/\<^verbatim>\<open>fwrite\<close> transferring at most \<open>k\<close> items, and
  \<^verbatim>\<open>fclose\<close> returning EOF.
\<close>

datatype fault = NoFault | AllocFails | OpenFails | SeekFails | ShortIO nat | CloseFails

datatype whence = SEEK_SET | SEEK_END

text \<open>
  Modelled from the spec: \<^verbatim>\<open>do_fseek\<close> and \<^verbatim>\<open>do_ftell\<close> are macros of \<^verbatim>\<open>ed.h\<close> (not
  under src/) over the C library's fseek and ftell.  A successful seek moves the file
  position to the offset (from the start or from the end of the file); a failing seek,
  a seek to a negative position and a seek on a null stream return -1 (here \<open>None\<close>)
  and leave the stream as it was.  \<^verbatim>\<open>do_ftell\<close> on an open stream returns the file
  position.
\<close>

definition do_fseek :: "fault \<Rightarrow> stream option \<Rightarrow> int \<Rightarrow> whence \<Rightarrow> stream option" where
  "do_fseek env fp off wh =
     (case fp of
        None \<Rightarrow> None
      | Some f \<Rightarrow>
          (let target = (case wh of SEEK_SET \<Rightarrow> off | SEEK_END \<Rightarrow> int (length (bytes f)) + off)
           in if env = SeekFails \<or> target < 0 then None
              else Some (f\<lparr>fpos := nat target\<rparr>)))"

definition do_ftell :: "stream option \<Rightarrow> int" where
  "do_ftell fp = (case fp of None \<Rightarrow> -1 | Some f \<Rightarrow> int (fpos f))"

text \<open>The number of items a transfer of \<open>len\<close> items moves under the environment.\<close>

definition xfer :: "fault \<Rightarrow> nat \<Rightarrow> nat" where
  "xfer env len = (case env of ShortIO k \<Rightarrow> min k len | _ \<Rightarrow> len)"

text \<open>
  Modelled from the spec: the C library's \<^verbatim>\<open>fread\<close> with item size 1.  It reads up
  to \<open>len\<close> bytes from the file position, stops early at the end of the file or where
  the environment cuts the transfer short, and advances the file position by the
  number of bytes read.  It returns the bytes; their number is the C return value.
\<close>

definition fread :: "fault \<Rightarrow> nat \<Rightarrow> stream option \<Rightarrow> char list \<times> stream option" where
  "fread env len fp =
     (case fp of
        None \<Rightarrow> ([], None)
      | Some f \<Rightarrow>
          (let got = take (xfer env len) (drop (fpos f) (bytes f))
           in (got, Some (f\<lparr>fpos := fpos f + length got\<rparr>))))"

text \<open>
  Modelled from the spec: the C library's \<^verbatim>\<open>fwrite\<close> with item size 1 on a stream
  opened \<^verbatim>\<open>"w+"\<close> (not in append mode).  The bytes go to the file position, over what
  is there and extending the file (a gap beyond the old end reads as zero bytes); the
  file position advances by the number of bytes written, which is returned.
\<close>

definition fwrite :: "fault \<Rightarrow> char list \<Rightarrow> nat \<Rightarrow> stream option \<Rightarrow> nat \<times> stream option" where
  "fwrite env buf len fp =
     (case fp of
        None \<Rightarrow> (0, None)
      | Some f \<Rightarrow>
          (let w = take (xfer env len) buf;
               old = bytes f @ replicate (fpos f - length (bytes f)) (CHR 0x00)
           in (length w,
               Some (f\<lparr>bytes := take (fpos f) old @ w @ drop (fpos f + length w) old,
                       fpos := fpos f + length w\<rparr>))))"

subsection \<open>The program state\<close>

record ed_state =
  sfp :: "stream option"          \<comment> \<open>\<^verbatim>\<open>static FILE *sfp\<close>, \<open>None\<close> is NULL\<close>
  sfpos :: int                    \<comment> \<open>\<^verbatim>\<open>static tp_ftell sfpos\<close>\<close>
  seek_write :: bool              \<comment> \<open>\<^verbatim>\<open>static edbool seek_write\<close>\<close>
  heap :: "ptr \<Rightarrow> line_t"          \<comment> \<open>\<^verbatim>\<open>buffer_head\<close> and the allocated nodes\<close>
  brk :: nat                      \<comment> \<open>the nodes \<open>Node i\<close> with \<open>i < brk\<close> have been allocated\<close>
  sfbufsz :: nat                  \<comment> \<open>\<^verbatim>\<open>static size_t sfbufsz\<close> of \<^verbatim>\<open>get_sbuf_line\<close>\<close>
  lp :: ptr                       \<comment> \<open>\<^verbatim>\<open>static line_t *lp\<close> of \<^verbatim>\<open>get_addressed_line_node\<close>\<close>
  on :: int                       \<comment> \<open>\<^verbatim>\<open>static int on\<close> of \<^verbatim>\<open>get_addressed_line_node\<close>\<close>
  current_addr :: int             \<comment> \<open>\<^verbatim>\<open>extern int current_addr\<close>\<close>
  addr_last :: int                \<comment> \<open>\<^verbatim>\<open>extern int addr_last\<close>\<close>
  tmpfile_exists :: bool          \<comment> \<open>whether the file named \<^verbatim>\<open>sfn\<close> is on disk\<close>

text \<open>
  The failures the functions report with \<^verbatim>\<open>seterrmsg\<close> before they return NULL or ERR.
  \<open>NotTerminated\<close> is not a message of the program: it stands for a call that breaks
  the assertion \<^verbatim>\<open>cs is '\n' terminated\<close> of \<^verbatim>\<open>put_sbuf_line\<close>, where the C scan
  leaves the string.
\<close>

datatype error =
    OutOfMemory | LineTooLong | CannotSeek | CannotRead | CannotWrite
  | InvalidAddress | CannotOpen | CannotClose | NotTerminated

fun errmsg :: "error \<Rightarrow> string" where
  "errmsg OutOfMemory = ''out of memory''"
| "errmsg LineTooLong = ''line too long''"
| "errmsg CannotSeek = ''cannot seek temp file''"
| "errmsg CannotRead = ''cannot read temp file''"
| "errmsg CannotWrite = ''cannot write temp file''"
| "errmsg InvalidAddress = ''invalid address''"
| "errmsg CannotOpen = ''cannot open temp file''"
| "errmsg CannotClose = ''cannot close temp file''"
| "errmsg NotTerminated = ''''"

definition INT_MAX :: int where
  "INT_MAX = 2147483647"

text \<open>
  Modelled from the spec: \<^verbatim>\<open>MINBUFSZ\<close> and the macro \<^verbatim>\<open>REALLOC(b, n, i, err)\<close> of
  \<^verbatim>\<open>ed.h\<close> (not under src/): when the buffer of size \<open>n\<close> is smaller than \<open>i\<close> it is
  grown by \<open>max i MINBUFSZ\<close>; when that allocation fails the calling function reports
  "out of memory" and returns \<open>err\<close>.  The result is the new size, or \<open>None\<close> for the
  failed allocation.
\<close>

definition MINBUFSZ :: nat where
  "MINBUFSZ = 512"

definition REALLOC :: "fault \<Rightarrow> nat \<Rightarrow> nat \<Rightarrow> nat option" where
  "REALLOC env n i =
     (if i > n then (if env = AllocFails then None else Some (n + max i MINBUFSZ))
      else Some n)"

text \<open>
  \<^verbatim>\<open>malloc(sizeof(line_t))\<close>: NULL when the allocation fails, else a node that was not
  allocated before.  \<^verbatim>\<open>free\<close> gives a node back; addresses are not reused in the
  model, so it leaves the state as it is.
\<close>

definition malloc :: "fault \<Rightarrow> ed_state \<Rightarrow> ptr \<times> ed_state" where
  "malloc env s =
     (if env = AllocFails then (Null, s) else (Node (brk s), s\<lparr>brk := Suc (brk s)\<rparr>))"

definition free :: "ptr \<Rightarrow> ed_state \<Rightarrow> ed_state" where
  "free p s = s"

text \<open>
  Modelled from the spec: the queue macros of \<^verbatim>\<open>ed.h\<close> (not under src/).
  \<^verbatim>\<open>REQUE(pred, succ)\<close> links \<open>pred\<close> before \<open>succ\<close>:
  \<^verbatim>\<open>(pred)->q_forw = (succ), (succ)->q_back = (pred)\<close>.
  \<^verbatim>\<open>INSQUE(elem, pred)\<close> links \<open>elem\<close> immediately after \<open>pred\<close>:
  \<^verbatim>\<open>REQUE((elem), (pred)->q_forw); REQUE((pred), elem);\<close>.
\<close>

definition REQUE :: "ptr \<Rightarrow> ptr \<Rightarrow> (ptr \<Rightarrow> line_t) \<Rightarrow> (ptr \<Rightarrow> line_t)" where
  "REQUE pred succ h =
     (let h1 = h(pred := (h pred)\<lparr>q_forw := succ\<rparr>)
      in h1(succ := (h1 succ)\<lparr>q_back := pred\<rparr>))"

definition INSQUE :: "ptr \<Rightarrow> ptr \<Rightarrow> (ptr \<Rightarrow> line_t) \<Rightarrow> (ptr \<Rightarrow> line_t)" where
  "INSQUE elem pred h =
     (let h1 = h(elem := (h elem)\<lparr>q_forw := q_forw (h pred)\<rparr>);
          succ = q_forw (h1 pred);
          h2 = h1(succ := (h1 succ)\<lparr>q_back := elem\<rparr>)
      in REQUE pred elem h2)"

text \<open>Modelled from the spec: \<^verbatim>\<open>LINECHARS\<close> of \<^verbatim>\<open>ed.h\<close> is a parameter of
  \<^verbatim>\<open>put_sbuf_line\<close> below (the fixed maximum of the spec).\<close>

subsection \<open>get_addressed_line_node\<close>

text \<open>The two loops \<^verbatim>\<open>for (; on < n; on++) lp = lp->q_forw;\<close> and
  \<^verbatim>\<open>for (; on > n; on--) lp = lp->q_back;\<close>.\<close>

function walk_forw :: "(ptr \<Rightarrow> line_t) \<Rightarrow> ptr \<Rightarrow> int \<Rightarrow> int \<Rightarrow> ptr \<times> int" where
  "walk_forw h p k n = (if k < n then walk_forw h (q_forw (h p)) (k + 1) n else (p, k))"
  by pat_completeness auto
termination
  by (relation "measure (\<lambda>(h, p, k, n). nat (n - k))") auto

function walk_back :: "(ptr \<Rightarrow> line_t) \<Rightarrow> ptr \<Rightarrow> int \<Rightarrow> int \<Rightarrow> ptr \<times> int" where
  "walk_back h p k n = (if k > n then walk_back h (q_back (h p)) (k - 1) n else (p, k))"
  by pat_completeness auto
termination
  by (relation "measure (\<lambda>(h, p, k, n). nat (k - n))") auto

declare walk_forw.simps [simp del]
declare walk_back.simps [simp del]

text \<open>
  \<^verbatim>\<open>SPL1()\<close> and \<^verbatim>\<open>SPL0()\<close> block and unblock signals and do not touch the state.
  \<^verbatim>\<open>x >> 1\<close> on the non-negative ints of the cache is \<open>x div 2\<close>.  C computes
  \<^verbatim>\<open>on + addr_last\<close> in \<^verbatim>\<open>int\<close>; the model computes in the integers, which agrees as long
  as the sum is at most \<open>INT_MAX\<close>.
\<close>

definition get_addressed_line_node :: "int \<Rightarrow> ed_state \<Rightarrow> ptr \<times> ed_state" where
  "get_addressed_line_node n s =
     (let (p, k) =
        (if n > on s then
           (if n \<le> (on s + addr_last s) div 2 then walk_forw (heap s) (lp s) (on s) n
            else walk_back (heap s) (q_back (heap s Buffer_head)) (addr_last s) n)
         else
           (if n \<ge> on s div 2 then walk_back (heap s) (lp s) (on s) n
            else walk_forw (heap s) Buffer_head 0 n))
      in (p, s\<lparr>lp := p, on := k\<rparr>))"

subsection \<open>add_line_node\<close>

definition add_line_node :: "ptr \<Rightarrow> ed_state \<Rightarrow> ed_state" where
  "add_line_node p s =
     (let (cp, s1) = get_addressed_line_node (current_addr s) s;
          s2 = s1\<lparr>heap := INSQUE p cp (heap s1)\<rparr>;
          s3 = s2\<lparr>addr_last := addr_last s2 + 1\<rparr>
      in s3\<lparr>current_addr := current_addr s3 + 1\<rparr>)"

subsection \<open>get_line_node_addr\<close>

text \<open>
  \<^verbatim>\<open>while (cp != lp && (cp = cp->q_forw) != &buffer_head) n++;\<close>
  The counter is an \<^verbatim>\<open>int\<close>: \<^verbatim>\<open>n++\<close> at \<open>INT_MAX\<close> is undefined in C, and the loop
  returns \<open>None\<close> there.  Otherwise it returns the final \<open>cp\<close> and \<open>n\<close>.
\<close>

function addr_loop :: "(ptr \<Rightarrow> line_t) \<Rightarrow> ptr \<Rightarrow> ptr \<Rightarrow> int \<Rightarrow> (ptr \<times> int) option" where
  "addr_loop h target cp n =
     (if cp \<noteq> target then
        (let cp' = q_forw (h cp)
         in if cp' \<noteq> Buffer_head then
              (if n < INT_MAX then addr_loop h target cp' (n + 1) else None)
            else Some (cp', n))
      else Some (cp, n))"
  by pat_completeness auto
termination
  by (relation "measure (\<lambda>(h, target, cp, n). nat (INT_MAX - n))") auto

declare addr_loop.simps [simp del]

definition get_line_node_addr :: "ptr \<Rightarrow> ed_state \<Rightarrow> (error + int) option" where
  "get_line_node_addr p s =
     (case addr_loop (heap s) p Buffer_head 0 of
        None \<Rightarrow> None
      | Some (cp, n) \<Rightarrow>
          Some (if n \<noteq> 0 \<and> cp = Buffer_head then Inl InvalidAddress else Inr n))"

subsection \<open>get_sbuf_line\<close>

definition get_sbuf_line :: "fault \<Rightarrow> ptr \<Rightarrow> ed_state \<Rightarrow> (error + string option) \<times> ed_state" where
  "get_sbuf_line env p s0 =
     (if p = Buffer_head then (Inr None, s0)
      else
        let s = s0\<lparr>seek_write := True\<rparr> in
        case (if sfpos s \<noteq> adr (heap s p) then
                (let s1 = s\<lparr>sfpos := adr (heap s p)\<rparr> in
                 case do_fseek env (sfp s1) (sfpos s1) SEEK_SET of
                   None \<Rightarrow> Inl s1
                 | Some f \<Rightarrow> Inr (s1\<lparr>sfp := Some f\<rparr>))
              else Inr s) of
          Inl s1 \<Rightarrow> (Inl CannotSeek, s1)
        | Inr s2 \<Rightarrow>
            (let len = llen (heap s2 p) in
             case REALLOC env (sfbufsz s2) (len + 1) of
               None \<Rightarrow> (Inl OutOfMemory, s2)
             | Some sz \<Rightarrow>
                 (let s3 = s2\<lparr>sfbufsz := sz\<rparr>;
                      (got, f') = fread env len (sfp s3);
                      s4 = s3\<lparr>sfp := f'\<rparr>
                  in if length got \<noteq> len then (Inl CannotRead, s4)
                     else (Inr (Some got), s4\<lparr>sfpos := sfpos s4 + int len\<rparr>))))"

subsection \<open>put_sbuf_line\<close>

definition NL :: char where
  "NL = CHR 0x0A"

text \<open>
  \<^verbatim>\<open>for (s = cs; *s != '\n'; s++) ;\<close> The scan returns the text before the first
  newline and the string after it (where \<^verbatim>\<open>++s\<close> points), or \<open>None\<close> when the string
  has no newline.
\<close>

fun scan_nl :: "string \<Rightarrow> (string \<times> string) option" where
  "scan_nl [] = None"
| "scan_nl (c # cs) =
     (if c = NL then Some ([], cs)
      else (case scan_nl cs of None \<Rightarrow> None | Some (t, r) \<Rightarrow> Some (c # t, r)))"

text \<open>
  The result is the string after the line (the C function returns the pointer to it).
  The new node is the one \<^verbatim>\<open>malloc\<close> returned, linked after the current line.
\<close>

definition put_sbuf_line :: "nat \<Rightarrow> fault \<Rightarrow> string \<Rightarrow> ed_state \<Rightarrow> (error + string) \<times> ed_state" where
  "put_sbuf_line LINECHARS env cs s0 =
     (let (p, s) = malloc env s0 in
      if p = Null then (Inl OutOfMemory, s)
      else
        case scan_nl cs of
          None \<Rightarrow> (Inl NotTerminated, s)
        | Some (text, rest) \<Rightarrow>
            if length text \<ge> LINECHARS then (Inl LineTooLong, free p s)
            else
              let len = length text in
              case (if seek_write s then
                      (case do_fseek env (sfp s) 0 SEEK_END of
                         None \<Rightarrow> None
                       | Some f \<Rightarrow>
                           Some (s\<lparr>sfp := Some f, sfpos := do_ftell (Some f),
                                   seek_write := False\<rparr>))
                    else Some s) of
                None \<Rightarrow> (Inl CannotSeek, free p s)
              | Some s1 \<Rightarrow>
                  (let (k, f') = fwrite env text len (sfp s1);
                       s2 = s1\<lparr>sfp := f'\<rparr>
                   in if k \<noteq> len then (Inl CannotWrite, free p (s2\<lparr>sfpos := -1\<rparr>))
                      else
                        let s3 = s2\<lparr>heap := (heap s2)(p := (heap s2 p)\<lparr>llen := len, adr := sfpos s2\<rparr>)\<rparr>;
                            s4 = add_line_node p s3
                        in (Inr rest, s4\<lparr>sfpos := sfpos s4 + int len\<rparr>)))"

subsection \<open>open_sbuf, close_sbuf, init_buffers\<close>

text \<open>
  \<^verbatim>\<open>mkstemp\<close> creates the file and \<^verbatim>\<open>fdopen\<close> opens the stream on it, empty and at
  position 0.  When either fails no file is left and ERR is returned.
\<close>

definition open_sbuf :: "fault \<Rightarrow> ed_state \<Rightarrow> (error + int) \<times> ed_state" where
  "open_sbuf env s =
     (if env = OpenFails then (Inl CannotOpen, s)
      else (Inr 0, s\<lparr>sfp := Some \<lparr>bytes = [], fpos = 0\<rparr>, tmpfile_exists := True\<rparr>))"

definition close_sbuf :: "fault \<Rightarrow> ed_state \<Rightarrow> (error + int) \<times> ed_state" where
  "close_sbuf env s =
     (case (case sfp s of
              Some f \<Rightarrow>
                (if env = CloseFails then None
                 else Some (s\<lparr>tmpfile_exists := False, sfp := None\<rparr>))
            | None \<Rightarrow> Some s) of
        None \<Rightarrow> (Inl CannotClose, s)
      | Some s1 \<Rightarrow> (Inr 0, s1\<lparr>sfpos := 0, seek_write := False\<rparr>))"

text \<open>
  The state at program start: statics and globals are zero, the cache of
  \<^verbatim>\<open>get_addressed_line_node\<close> is initialised to \<^verbatim>\<open>(&buffer_head, 0)\<close>.
\<close>

definition startup :: ed_state where
  "startup =
     \<lparr>sfp = None, sfpos = 0, seek_write = False,
      heap = (\<lambda>p. \<lparr>q_forw = Null, q_back = Null, adr = 0, llen = 0\<rparr>),
      brk = 0, sfbufsz = 0, lp = Buffer_head, on = 0,
      current_addr = 0, addr_last = 0, tmpfile_exists = False\<rparr>"

text \<open>
  \<^verbatim>\<open>init_buffers\<close>: a failing allocation of the file name or a failing \<^verbatim>\<open>open_sbuf\<close>
  ends the process through \<^verbatim>\<open>quit(2)\<close> (\<open>None\<close>); otherwise the queue is made the empty
  ring \<^verbatim>\<open>REQUE(&buffer_head, &buffer_head)\<close>.
\<close>

definition init_buffers :: "fault \<Rightarrow> ed_state \<Rightarrow> ed_state option" where
  "init_buffers env s =
     (if env = AllocFails then None
      else
        case open_sbuf env s of
          (Inl e, s1) \<Rightarrow> None
        | (Inr r, s1) \<Rightarrow> Some (s1\<lparr>heap := REQUE Buffer_head Buffer_head (heap s1)\<rparr>))"

subsection \<open>Well-formed states\<close>

text \<open>
  The queue is a ring over the lines \<open>ns\<close> in buffer order: following \<^verbatim>\<open>q_forw\<close> from
  \<^verbatim>\<open>buffer_head\<close> visits \<open>ns\<close> and comes back, and \<^verbatim>\<open>q_back\<close> is the mirror image.
\<close>

definition ring :: "(ptr \<Rightarrow> line_t) \<Rightarrow> ptr list \<Rightarrow> bool" where
  "ring h ns \<longleftrightarrow>
     distinct (Buffer_head # ns) \<and>
     map (\<lambda>p. q_forw (h p)) (Buffer_head # ns) = ns @ [Buffer_head] \<and>
     map (\<lambda>p. q_back (h p)) (ns @ [Buffer_head]) = Buffer_head # ns"

fun allocated :: "nat \<Rightarrow> ptr \<Rightarrow> bool" where
  "allocated b (Node i) = (i < b)"
| "allocated b Buffer_head = False"
| "allocated b Null = False"

text \<open>
  The registry is well formed for the lines \<open>ns\<close>: the queue is their ring, every line
  is an allocated node, \<^verbatim>\<open>addr_last\<close> is their number, and the cached pair of
  \<^verbatim>\<open>get_addressed_line_node\<close> is an address in \<open>[0, addr_last]\<close> with its node.
\<close>

definition registry :: "ed_state \<Rightarrow> ptr list \<Rightarrow> bool" where
  "registry s ns \<longleftrightarrow>
     ring (heap s) ns \<and> list_all (allocated (brk s)) ns \<and>
     addr_last s = int (length ns) \<and>
     0 \<le> on s \<and> on s \<le> addr_last s \<and> lp s = (Buffer_head # ns) ! nat (on s)"

text \<open>The cursor \<^verbatim>\<open>sfpos\<close> is the real position of the open scratch file.\<close>

definition cursor_synced :: "ed_state \<Rightarrow> bool" where
  "cursor_synced s \<longleftrightarrow> (case sfp s of None \<Rightarrow> False | Some f \<Rightarrow> sfpos s = int (fpos f))"

subsection \<open>The cache-free resolver of the spec\<close>

text \<open>
  The resolver the spec compares with ("a cache-free (pure linear-scan) resolver"): walk
  forward from the sentinel, counting hops.
\<close>

fun linear_scan :: "(ptr \<Rightarrow> line_t) \<Rightarrow> nat \<Rightarrow> ptr" where
  "linear_scan h 0 = Buffer_head"
| "linear_scan h (Suc k) = q_forw (h (linear_scan h k))"

text \<open>
  A line insertion as the callers do it: they set \<^verbatim>\<open>current_addr\<close> to the address after
  which the line goes, and a new node is added there.  \<open>insert_lines\<close> runs a sequence
  of insertions, \<open>valid_positions c\<close> says that each goes after an address in
  \<open>[0, count]\<close> for the count at that moment (starting from \<open>c\<close>).
\<close>

definition insert_line :: "int \<Rightarrow> ed_state \<Rightarrow> ed_state" where
  "insert_line k s = (let (p, s1) = malloc NoFault (s\<lparr>current_addr := k\<rparr>) in add_line_node p s1)"

fun insert_lines :: "int list \<Rightarrow> ed_state \<Rightarrow> ed_state" where
  "insert_lines [] s = s"
| "insert_lines (k # ks) s = insert_lines ks (insert_line k s)"

fun valid_positions :: "int \<Rightarrow> int list \<Rightarrow> bool" where
  "valid_positions c [] = True"
| "valid_positions c (k # ks) = (0 \<le> k \<and> k \<le> c \<and> valid_positions (c + 1) ks)"

text \<open>
  A sequence of \<^verbatim>\<open>get_addressed_line_node\<close> calls; for each call the node it returned
  and the cached pair it left.
\<close>

fun lookups :: "int list \<Rightarrow> ed_state \<Rightarrow> (ptr \<times> ptr \<times> int) list" where
  "lookups [] s = []"
| "lookups (n # ns) s =
     (let (p, s') = get_addressed_line_node n s in (p, lp s', on s') # lookups ns s')"

section \<open>The line queue\<close>

subsection \<open>Walking the ring\<close>

lemma ring_forw:
  assumes "ring h ns" "i \<le> length ns"
  shows "q_forw (h ((Buffer_head # ns) ! i)) = (ns @ [Buffer_head]) ! i"
proof -
  have "map (\<lambda>p. q_forw (h p)) (Buffer_head # ns) ! i = (ns @ [Buffer_head]) ! i"
    using assms(1) by (simp add: ring_def)
  moreover have "i < length (Buffer_head # ns)" using assms(2) by simp
  ultimately show ?thesis by (simp only: nth_map)
qed

lemma ring_back:
  assumes "ring h ns" "i \<le> length ns"
  shows "q_back (h ((ns @ [Buffer_head]) ! i)) = (Buffer_head # ns) ! i"
proof -
  have "map (\<lambda>p. q_back (h p)) (ns @ [Buffer_head]) ! i = (Buffer_head # ns) ! i"
    using assms(1) by (simp add: ring_def)
  moreover have "i < length (ns @ [Buffer_head])" using assms(2) by simp
  ultimately show ?thesis by (simp only: nth_map)
qed

lemma ring_step_forw:
  assumes "ring h ns" "i < length ns"
  shows "q_forw (h ((Buffer_head # ns) ! i)) = (Buffer_head # ns) ! Suc i"
  using ring_forw [OF assms(1), of i] assms(2) by (simp add: nth_append)

lemma ring_step_back:
  assumes "ring h ns" "i < length ns"
  shows "q_back (h ((Buffer_head # ns) ! Suc i)) = (Buffer_head # ns) ! i"
  using ring_back [OF assms(1), of i] assms(2) by (simp add: nth_append)

lemma ring_tail:
  assumes "ring h ns"
  shows "q_back (h Buffer_head) = (Buffer_head # ns) ! length ns"
  using ring_back [OF assms, of "length ns"] by simp

lemma walk_forw_ring:
  "ring h ns \<Longrightarrow> p = (Buffer_head # ns) ! nat k \<Longrightarrow> 0 \<le> k \<Longrightarrow> k \<le> n \<Longrightarrow>
   n \<le> int (length ns) \<Longrightarrow> walk_forw h p k n = ((Buffer_head # ns) ! nat n, n)"
proof (induction h p k n rule: walk_forw.induct)
  case (1 h p k n)
  show ?case
  proof (cases "k < n")
    case True
    have lt: "nat k < length ns" using True "1.prems" by simp
    have nk: "nat (k + 1) = Suc (nat k)" using "1.prems" by simp
    have step: "q_forw (h p) = (Buffer_head # ns) ! nat (k + 1)"
      using ring_step_forw [OF "1.prems"(1) lt] "1.prems"(2) nk by simp
    have "walk_forw h (q_forw (h p)) (k + 1) n = ((Buffer_head # ns) ! nat n, n)"
      using "1.IH" [OF True "1.prems"(1) step] True "1.prems" by simp
    then show ?thesis using True by (subst walk_forw.simps) simp
  next
    case False
    then have "k = n" using "1.prems" by simp
    then show ?thesis using "1.prems" by (subst walk_forw.simps) simp
  qed
qed

lemma walk_back_ring:
  "ring h ns \<Longrightarrow> p = (Buffer_head # ns) ! nat k \<Longrightarrow> 0 \<le> n \<Longrightarrow> n \<le> k \<Longrightarrow>
   k \<le> int (length ns) \<Longrightarrow> walk_back h p k n = ((Buffer_head # ns) ! nat n, n)"
proof (induction h p k n rule: walk_back.induct)
  case (1 h p k n)
  show ?case
  proof (cases "k > n")
    case True
    have lt: "nat (k - 1) < length ns" using True "1.prems" by simp
    have nk: "nat k = Suc (nat (k - 1))" using True "1.prems" by simp
    have step: "q_back (h p) = (Buffer_head # ns) ! nat (k - 1)"
      using ring_step_back [OF "1.prems"(1) lt] "1.prems"(2) nk by simp
    have "walk_back h (q_back (h p)) (k - 1) n = ((Buffer_head # ns) ! nat n, n)"
      using "1.IH" [OF True "1.prems"(1) step] True "1.prems" by simp
    then show ?thesis using True by (subst walk_back.simps) simp
  next
    case False
    then have "k = n" using "1.prems" by simp
    then show ?thesis using "1.prems" by (subst walk_back.simps) simp
  qed
qed

lemma linear_scan_ring:
  "ring h ns \<Longrightarrow> k \<le> length ns \<Longrightarrow> linear_scan h k = (Buffer_head # ns) ! k"
proof (induction k)
  case 0
  show ?case by simp
next
  case (Suc k)
  then have "linear_scan h k = (Buffer_head # ns) ! k" by simp
  moreover have "q_forw (h ((Buffer_head # ns) ! k)) = (Buffer_head # ns) ! Suc k"
    using ring_step_forw [of h ns k] Suc.prems by simp
  ultimately show ?case by simp
qed

text \<open>Inside \<open>[0, addr_last]\<close> every one of the four branches reaches the node at the
  address, and the cache is left at the address and its node.\<close>

lemma get_addressed_line_node_registry:
  assumes reg: "registry s ns" and lo: "0 \<le> n" and hi: "n \<le> addr_last s"
  shows "get_addressed_line_node n s =
           ((Buffer_head # ns) ! nat n, s\<lparr>lp := (Buffer_head # ns) ! nat n, on := n\<rparr>)"
proof -
  have r: "ring (heap s) ns" and al: "addr_last s = int (length ns)"
    and on0: "0 \<le> on s" and on1: "on s \<le> addr_last s"
    and c: "lp s = (Buffer_head # ns) ! nat (on s)"
    using reg by (simp_all add: registry_def)
  have tl: "q_back (heap s Buffer_head) = (Buffer_head # ns) ! nat (addr_last s)"
    using ring_tail [OF r] al by simp
  have f1: "n > on s \<Longrightarrow> walk_forw (heap s) (lp s) (on s) n = ((Buffer_head # ns) ! nat n, n)"
    using walk_forw_ring [OF r c on0] hi al by simp
  have b1: "walk_back (heap s) (q_back (heap s Buffer_head)) (addr_last s) n
              = ((Buffer_head # ns) ! nat n, n)"
    using walk_back_ring [OF r tl lo hi] al by simp
  have b2: "n \<le> on s \<Longrightarrow> walk_back (heap s) (lp s) (on s) n = ((Buffer_head # ns) ! nat n, n)"
    using walk_back_ring [OF r c lo] on1 al by simp
  have f2: "walk_forw (heap s) Buffer_head 0 n = ((Buffer_head # ns) ! nat n, n)"
    using walk_forw_ring [OF r, of Buffer_head 0 n] lo hi al by simp
  show ?thesis
    unfolding get_addressed_line_node_def using f1 b1 b2 f2 by simp
qed

lemma registry_cache_update:
  assumes "registry s ns" "0 \<le> n" "n \<le> addr_last s"
  shows "registry (s\<lparr>lp := (Buffer_head # ns) ! nat n, on := n\<rparr>) ns"
  using assms by (simp add: registry_def)

lemma INSQUE_forw:
  assumes "e \<noteq> c" "q_forw (h c) \<noteq> e"
  shows "q_forw (INSQUE e c h x) =
           (if x = e then q_forw (h c) else if x = c then e else q_forw (h x))"
  using assms by (simp add: INSQUE_def REQUE_def Let_def)

lemma INSQUE_back:
  assumes "e \<noteq> c" "q_forw (h c) \<noteq> e"
  shows "q_back (INSQUE e c h x) =
           (if x = e then c else if x = q_forw (h c) then e else q_back (h x))"
  using assms by (simp add: INSQUE_def REQUE_def Let_def)

lemma ring_insert:
  assumes r: "ring h (A @ B)" and fresh: "e \<notin> set (Buffer_head # A @ B)"
    and c: "c = last (Buffer_head # A)"
  shows "ring (INSQUE e c h) (A @ e # B)"
proof -
  let ?f = "\<lambda>p. q_forw (h p)" and ?g = "\<lambda>p. q_back (h p)"
  let ?f' = "\<lambda>p. q_forw (INSQUE e c h p)" and ?g' = "\<lambda>p. q_back (INSQUE e c h p)"
  obtain P where P: "Buffer_head # A = P @ [c]"
    using c by (metis append_butlast_last_id list.distinct(1))
  obtain d R where dR: "B @ [Buffer_head] = d # R"
    by (cases B) auto
  have d0: "distinct (Buffer_head # A @ B)"
    and f0: "map ?f (Buffer_head # A @ B) = (A @ B) @ [Buffer_head]"
    and b0: "map ?g ((A @ B) @ [Buffer_head]) = Buffer_head # A @ B"
    using r unfolding ring_def by blast+
  have eq1: "Buffer_head # A @ B = P @ c # B"
    using P by (metis append_Cons append_assoc append_Nil)
  have eq2: "(A @ B) @ [Buffer_head] = A @ d # R"
    using dR by simp
  have lenP: "length P = length A"
    using P by (metis length_Cons length_append_singleton nat.inject)
  have dist: "distinct (P @ c # B)"
    using d0 unfolding eq1 .
  have "distinct ((A @ B) @ [Buffer_head])"
    using d0 by auto
  then have dist2: "distinct (A @ d # R)"
    unfolding eq2 .
  have fw: "map ?f (P @ c # B) = A @ d # R"
    using f0 unfolding eq1 eq2 .
  have bw: "map ?g (A @ d # R) = P @ c # B"
    using b0 unfolding eq1 eq2 .
  have fwP: "map ?f P = A" and fwc: "q_forw (h c) = d" and fwB: "map ?f B = R"
    using fw lenP by (simp_all add: append_eq_append_conv)
  have bwA: "map ?g A = P" and bwd: "q_back (h d) = c" and bwR: "map ?g R = B"
    using bw lenP by (simp_all add: append_eq_append_conv)
  have fr1: "e \<notin> set (P @ c # B)"
    using fresh unfolding eq1 .
  have "set ((A @ B) @ [Buffer_head]) = set (Buffer_head # A @ B)"
    by auto
  then have fr2: "e \<notin> set (A @ d # R)"
    using fresh unfolding eq2 by simp
  have ec: "e \<noteq> c" and ed: "q_forw (h c) \<noteq> e"
    using fr1 fr2 fwc by auto
  have F: "\<And>x. q_forw (INSQUE e c h x) = (if x = e then d else if x = c then e else q_forw (h x))"
    using INSQUE_forw [of e c h, OF ec ed] fwc by auto
  have G: "\<And>x. q_back (INSQUE e c h x) = (if x = e then c else if x = d then e else q_back (h x))"
    using INSQUE_back [of e c h, OF ec ed] fwc by auto
  have e1: "Buffer_head # A @ e # B = P @ c # e # B"
    using P by (metis append_Cons append_assoc append_Nil)
  have e2: "(A @ e # B) @ [Buffer_head] = A @ e # d # R"
    using dR by simp
  have "map ?f' P = map ?f P"
    using fr1 dist by (intro map_cong) (auto simp: F)
  moreover have "map ?f' B = map ?f B"
    using fr1 dist by (intro map_cong) (auto simp: F)
  ultimately have "map ?f' (P @ c # e # B) = A @ e # d # R"
    using fwP fwB ec by (simp add: F)
  then have forw: "map ?f' (Buffer_head # A @ e # B) = (A @ e # B) @ [Buffer_head]"
    unfolding e1 e2 .
  have "map ?g' A = map ?g A"
    using fr2 dist2 by (intro map_cong) (auto simp: G)
  moreover have "map ?g' R = map ?g R"
    using fr2 dist2 by (intro map_cong) (auto simp: G)
  ultimately have "map ?g' (A @ e # d # R) = P @ c # e # B"
    using bwA bwR fr2 by (auto simp: G)
  then have bwd2: "map ?g' ((A @ e # B) @ [Buffer_head]) = Buffer_head # A @ e # B"
    unfolding e1 e2 .
  have "distinct (P @ c # e # B)"
    using dist fr1 by auto
  then have "distinct (Buffer_head # A @ e # B)"
    unfolding e1 .
  then show ?thesis
    unfolding ring_def using forw bwd2 by blast
qed

lemma nth_Cons_take_insert:
  assumes "k \<le> length ns"
  shows "(Buffer_head # take k ns @ e # drop k ns) ! k = (Buffer_head # ns) ! k"
    and "last (Buffer_head # take k ns) = (Buffer_head # ns) ! k"
proof -
  have len: "length (Buffer_head # take k ns) = Suc k"
    using assms by simp
  have "(Buffer_head # take k ns @ e # drop k ns) ! k = (Buffer_head # take k ns) ! k"
    using len by (metis append_Cons lessI nth_append)
  moreover have "(Buffer_head # take k ns) ! k = (Buffer_head # ns) ! k"
    using assms by (cases k) simp_all
  ultimately show "(Buffer_head # take k ns @ e # drop k ns) ! k = (Buffer_head # ns) ! k"
    by simp
  have "last (Buffer_head # take k ns) = (Buffer_head # take k ns) ! k"
    using len by (metis diff_Suc_1 last_conv_nth list.distinct(1))
  then show "last (Buffer_head # take k ns) = (Buffer_head # ns) ! k"
    using \<open>(Buffer_head # take k ns) ! k = (Buffer_head # ns) ! k\<close> by simp
qed

lemma allocated_mono:
  "allocated b p \<Longrightarrow> allocated (Suc b) p"
  by (cases p) simp_all

lemma allocated_fresh:
  assumes "list_all (allocated b) ns"
  shows "Node b \<notin> set (Buffer_head # ns)"
proof
  assume "Node b \<in> set (Buffer_head # ns)"
  then have "Node b \<in> set ns" by simp
  then have "allocated b (Node b)" using assms by (auto simp: list_all_iff)
  then show False by simp
qed

text \<open>Adding a node that is not in the queue after the current line keeps the registry
  well formed, with the new node after position \<open>current_addr\<close>.\<close>

lemma add_line_node_registry:
  assumes reg: "registry s ns" and lo: "0 \<le> current_addr s" and hi: "current_addr s \<le> addr_last s"
    and fresh: "e \<notin> set (Buffer_head # ns)" and al: "allocated (brk s) e"
    and k: "k = nat (current_addr s)"
  shows "registry (add_line_node e s) (take k ns @ e # drop k ns)"
    and "current_addr (add_line_node e s) = current_addr s + 1"
    and "brk (add_line_node e s) = brk s"
proof -
  let ?c = "(Buffer_head # ns) ! k"
  let ?s1 = "s\<lparr>lp := ?c, on := current_addr s\<rparr>"
  have g: "get_addressed_line_node (current_addr s) s = (?c, ?s1)"
    using get_addressed_line_node_registry [OF reg lo hi] k by simp
  have kl: "k \<le> length ns"
    using reg hi k by (simp add: registry_def)
  have r: "ring (heap s) (take k ns @ drop k ns)"
    using reg by (simp add: registry_def)
  have fr: "e \<notin> set (Buffer_head # take k ns @ drop k ns)"
    using fresh by simp
  have c: "?c = last (Buffer_head # take k ns)"
    using nth_Cons_take_insert(2) [OF kl] by simp
  have r': "ring (INSQUE e ?c (heap s)) (take k ns @ e # drop k ns)"
    using ring_insert [OF r fr c] .
  have st: "add_line_node e s =
      s\<lparr>lp := ?c, on := current_addr s, heap := INSQUE e ?c (heap s),
        addr_last := addr_last s + 1, current_addr := current_addr s + 1\<rparr>"
    unfolding add_line_node_def g by (simp add: Let_def)
  have len: "int (length (take k ns @ e # drop k ns)) = addr_last s + 1"
    using reg kl by (simp add: registry_def)
  have cache: "(Buffer_head # take k ns @ e # drop k ns) ! nat (current_addr s) = ?c"
    using nth_Cons_take_insert(1) [OF kl] k by simp
  have allo: "list_all (allocated (brk s)) (take k ns @ e # drop k ns)"
    using reg al by (auto simp: registry_def list_all_iff dest: in_set_takeD in_set_dropD)
  show "registry (add_line_node e s) (take k ns @ e # drop k ns)"
    unfolding st registry_def using r' len cache allo lo hi by simp
  show "current_addr (add_line_node e s) = current_addr s + 1"
    unfolding st by simp
  show "brk (add_line_node e s) = brk s"
    unfolding st by simp
qed

lemma registry_set_current_addr:
  "registry (s\<lparr>current_addr := k\<rparr>) ns = registry s ns"
  by (simp add: registry_def)

lemma registry_alloc:
  assumes "registry s ns"
  shows "registry (s\<lparr>brk := Suc (brk s)\<rparr>) ns"
  using assms by (auto simp: registry_def list_all_iff intro: allocated_mono)

lemma insert_line_registry:
  assumes reg: "registry s ns" and lo: "0 \<le> k" and hi: "k \<le> addr_last s"
  shows "\<exists>ns'. registry (insert_line k s) ns' \<and> length ns' = Suc (length ns)"
proof -
  let ?s1 = "s\<lparr>current_addr := k, brk := Suc (brk s)\<rparr>"
  let ?e = "Node (brk s)"
  have il: "insert_line k s = add_line_node ?e ?s1"
    by (simp add: insert_line_def malloc_def)
  have reg1: "registry ?s1 ns"
    using registry_alloc [OF reg] by (simp add: registry_def)
  have fresh: "?e \<notin> set (Buffer_head # ns)"
    using allocated_fresh reg by (simp add: registry_def)
  have "registry (add_line_node ?e ?s1) (take (nat k) ns @ ?e # drop (nat k) ns)"
    using add_line_node_registry(1) [OF reg1 _ _ fresh, of "nat k"] lo hi by simp
  moreover have "length (take (nat k) ns @ ?e # drop (nat k) ns) = Suc (length ns)"
    by simp
  ultimately show ?thesis
    unfolding il by blast
qed

lemma insert_lines_registry:
  "registry s ns \<Longrightarrow> valid_positions (addr_last s) ks \<Longrightarrow>
   \<exists>ns'. registry (insert_lines ks s) ns' \<and> length ns' = length ns + length ks"
proof (induction ks arbitrary: s ns)
  case Nil
  then show ?case by auto
next
  case (Cons k ks)
  from Cons.prems have lo: "0 \<le> k" and hi: "k \<le> addr_last s"
    and rest: "valid_positions (addr_last s + 1) ks" by simp_all
  obtain ns1 where r1: "registry (insert_line k s) ns1" and l1: "length ns1 = Suc (length ns)"
    using insert_line_registry [OF Cons.prems(1) lo hi] by blast
  have "addr_last (insert_line k s) = addr_last s + 1"
    using r1 l1 Cons.prems(1) by (simp add: registry_def)
  then obtain ns' where "registry (insert_lines ks (insert_line k s)) ns'"
    and "length ns' = length ns1 + length ks"
    using Cons.IH [OF r1] rest by auto
  then show ?case using l1 by auto
qed

lemma init_buffers_registry:
  assumes "init_buffers env startup = Some s"
  shows "registry s []" and "sfp s = Some \<lparr>bytes = [], fpos = 0\<rparr>" and "sfpos s = 0"
    and "\<not> seek_write s" and "current_addr s = 0"
  using assms
  by (auto simp: init_buffers_def open_sbuf_def startup_def registry_def ring_def REQUE_def
      split: if_splits)

lemma lookups_registry:
  "registry s ns \<Longrightarrow> \<forall>n \<in> set qs. 0 \<le> n \<and> n \<le> addr_last s \<Longrightarrow>
   lookups qs s = map (\<lambda>n. ((Buffer_head # ns) ! nat n, (Buffer_head # ns) ! nat n, n)) qs"
proof (induction qs arbitrary: s)
  case Nil
  show ?case by simp
next
  case (Cons n qs)
  let ?p = "(Buffer_head # ns) ! nat n"
  let ?s' = "s\<lparr>lp := ?p, on := n\<rparr>"
  have lo: "0 \<le> n" and hi: "n \<le> addr_last s" using Cons.prems(2) by simp_all
  have g: "get_addressed_line_node n s = (?p, ?s')"
    using get_addressed_line_node_registry [OF Cons.prems(1) lo hi] .
  have reg': "registry ?s' ns"
    using registry_cache_update [OF Cons.prems(1) lo hi] .
  have "lookups qs ?s' = map (\<lambda>n. ((Buffer_head # ns) ! nat n, (Buffer_head # ns) ! nat n, n)) qs"
    using Cons.IH [OF reg'] Cons.prems(2) by simp
  then show ?case using g by simp
qed

lemma ring_nth_neq:
  assumes "ring h ns" "i \<le> length ns" "j \<le> length ns" "i \<noteq> j"
  shows "(Buffer_head # ns) ! i \<noteq> (Buffer_head # ns) ! j"
proof -
  have "distinct (Buffer_head # ns)" using assms(1) by (simp add: ring_def)
  then show ?thesis
    using assms(2-4) by (simp add: nth_eq_iff_index_eq)
qed

lemma ring_nth_not_head:
  assumes "ring h ns" "i < length ns"
  shows "(Buffer_head # ns) ! Suc i \<noteq> Buffer_head"
  using ring_nth_neq [OF assms(1), of "Suc i" 0] assms(2) by simp

text \<open>The loop of \<^verbatim>\<open>get_line_node_addr\<close> started at position \<open>j\<close> with the counter \<open>j\<close>:
  it stops at a node of the ring with the node's position, and runs to the sentinel with
  the number of lines for a node that is not in the ring.\<close>

lemma addr_loop_member:
  assumes r: "ring h ns" and bound: "int (length ns) \<le> INT_MAX" and i: "i \<le> length ns"
  shows "j \<le> i \<Longrightarrow>
         addr_loop h ((Buffer_head # ns) ! i) ((Buffer_head # ns) ! j) (int j)
           = Some ((Buffer_head # ns) ! i, int i)"
proof (induction "i - j" arbitrary: j)
  case 0
  then have "j = i" by simp
  then show ?case by (subst addr_loop.simps) simp
next
  case (Suc d)
  then have lt: "j < i" by simp
  have ne: "(Buffer_head # ns) ! j \<noteq> (Buffer_head # ns) ! i"
    using ring_nth_neq [OF r, of j i] lt i by simp
  have step: "q_forw (h ((Buffer_head # ns) ! j)) = (Buffer_head # ns) ! Suc j"
    using ring_step_forw [OF r, of j] lt i by simp
  have nh: "(Buffer_head # ns) ! Suc j \<noteq> Buffer_head"
    using ring_nth_not_head [OF r, of j] lt i by simp
  have small: "int j < INT_MAX"
    using lt i bound by simp
  have "addr_loop h ((Buffer_head # ns) ! i) ((Buffer_head # ns) ! Suc j) (int (Suc j))
          = Some ((Buffer_head # ns) ! i, int i)"
    using Suc.hyps(1) [of "Suc j"] Suc.hyps(2) lt by simp
  then have "addr_loop h ((Buffer_head # ns) ! i) ((Buffer_head # ns) ! Suc j) (int j + 1)
          = Some ((Buffer_head # ns) ! i, int i)"
    by (simp add: add.commute)
  then show ?case
    using ne step nh small by (subst addr_loop.simps) (simp add: Let_def)
qed

lemma addr_loop_foreign:
  assumes r: "ring h ns" and bound: "int (length ns) \<le> INT_MAX"
    and foreign: "t \<notin> set (Buffer_head # ns)"
  shows "j \<le> length ns \<Longrightarrow>
         addr_loop h t ((Buffer_head # ns) ! j) (int j) = Some (Buffer_head, int (length ns))"
proof (induction "length ns - j" arbitrary: j)
  case 0
  then have j: "j = length ns" by simp
  have ne: "(Buffer_head # ns) ! j \<noteq> t"
    using foreign j by (metis length_Cons lessI nth_mem)
  have "q_forw (h ((Buffer_head # ns) ! j)) = Buffer_head"
    using ring_forw [OF r, of j] j by simp
  then show ?case
    using ne j by (subst addr_loop.simps) (simp add: Let_def)
next
  case (Suc d)
  then have lt: "j < length ns" by simp
  have ne: "(Buffer_head # ns) ! j \<noteq> t"
    using foreign lt by (metis length_Cons less_Suc_eq nth_mem)
  have step: "q_forw (h ((Buffer_head # ns) ! j)) = (Buffer_head # ns) ! Suc j"
    using ring_step_forw [OF r lt] .
  have nh: "(Buffer_head # ns) ! Suc j \<noteq> Buffer_head"
    using ring_nth_not_head [OF r lt] .
  have small: "int j < INT_MAX"
    using lt bound by simp
  have "addr_loop h t ((Buffer_head # ns) ! Suc j) (int (Suc j))
          = Some (Buffer_head, int (length ns))"
    using Suc.hyps(1) [of "Suc j"] Suc.hyps(2) lt by simp
  then have "addr_loop h t ((Buffer_head # ns) ! Suc j) (int j + 1)
          = Some (Buffer_head, int (length ns))"
    by (simp add: add.commute)
  then show ?case
    using ne step nh small by (subst addr_loop.simps) (simp add: Let_def)
qed

lemma get_line_node_addr_member:
  assumes r: "ring (heap s) ns" and bound: "int (length ns) \<le> INT_MAX" and i: "i \<le> length ns"
  shows "get_line_node_addr ((Buffer_head # ns) ! i) s = Some (Inr (int i))"
proof -
  have l: "addr_loop (heap s) ((Buffer_head # ns) ! i) Buffer_head 0
             = Some ((Buffer_head # ns) ! i, int i)"
    using addr_loop_member [OF r bound i, of 0] by simp
  have "i \<noteq> 0 \<Longrightarrow> (Buffer_head # ns) ! i \<noteq> Buffer_head"
    using ring_nth_neq [OF r, of i 0] i by simp
  then show ?thesis
    unfolding get_line_node_addr_def l by auto
qed

lemma get_line_node_addr_foreign:
  assumes r: "ring (heap s) ns" and bound: "int (length ns) \<le> INT_MAX"
    and foreign: "t \<notin> set (Buffer_head # ns)"
  shows "get_line_node_addr t s = Some (if ns = [] then Inr 0 else Inl InvalidAddress)"
proof -
  have l: "addr_loop (heap s) t Buffer_head 0 = Some (Buffer_head, int (length ns))"
    using addr_loop_foreign [OF r bound foreign, of 0] by simp
  show ?thesis
    unfolding get_line_node_addr_def l by simp
qed

text \<open>Outside \<open>[0, addr_last]\<close> there is no error path: a negative address gives the
  sentinel, an address above \<^verbatim>\<open>addr_last\<close> the last node.\<close>

lemma get_addressed_line_node_below:
  assumes reg: "registry s ns" and neg: "n < 0"
  shows "get_addressed_line_node n s = (Buffer_head, s\<lparr>lp := Buffer_head, on := 0\<rparr>)"
proof -
  have on0: "0 \<le> on s" using reg by (simp add: registry_def)
  have "walk_forw (heap s) Buffer_head 0 n = (Buffer_head, 0)"
    using neg by (subst walk_forw.simps) simp
  moreover have "\<not> n > on s" "\<not> n \<ge> on s div 2"
    using on0 neg by simp_all
  ultimately show ?thesis
    unfolding get_addressed_line_node_def by simp
qed

lemma get_addressed_line_node_above:
  assumes reg: "registry s ns" and big: "n > addr_last s"
  shows "get_addressed_line_node n s =
           ((Buffer_head # ns) ! length ns,
            s\<lparr>lp := (Buffer_head # ns) ! length ns, on := addr_last s\<rparr>)"
proof -
  have r: "ring (heap s) ns" and on1: "on s \<le> addr_last s"
    using reg by (simp_all add: registry_def)
  have "walk_back (heap s) (q_back (heap s Buffer_head)) (addr_last s) n
          = (q_back (heap s Buffer_head), addr_last s)"
    using big by (subst walk_back.simps) simp
  moreover have "n > on s" "\<not> n \<le> (on s + addr_last s) div 2"
    using on1 big by simp_all
  ultimately show ?thesis
    unfolding get_addressed_line_node_def using ring_tail [OF r] by simp
qed

lemma member_nth:
  assumes "p \<in> set (Buffer_head # ns)"
  shows "\<exists>i. i \<le> length ns \<and> p = (Buffer_head # ns) ! i"
proof -
  obtain i where i: "i < length (Buffer_head # ns)" and p: "(Buffer_head # ns) ! i = p"
    using assms unfolding in_set_conv_nth by blast
  have il: "i \<le> length ns" using i by simp
  show ?thesis using il p by blast
qed

section \<open>The claims about the line queue\<close>

text \<open>
  C2 (cache equivalence).  After any sequence of line insertions into the initial
  empty buffer, each after an address in \<open>[0, count]\<close>, any sequence of
  \<^verbatim>\<open>get_addressed_line_node\<close> calls with addresses in \<open>[0, count]\<close> returns, call by
  call, the node the cache-free linear scan from the sentinel finds, and each call
  leaves the cached pair equal to that node and the address asked for.  The count is the
  number of insertions; \<open>2 * count \<le> INT_MAX\<close> keeps \<^verbatim>\<open>on + addr_last\<close> inside \<^verbatim>\<open>int\<close>.
\<close>

theorem cache_equivalence:
  assumes init: "init_buffers NoFault startup = Some s0"
    and ins: "valid_positions 0 ks"
    and small: "2 * int (length ks) \<le> INT_MAX"
    and range: "\<forall>n \<in> set qs. 0 \<le> n \<and> n \<le> int (length ks)"
  shows "addr_last (insert_lines ks s0) = int (length ks) \<and>
         lookups qs (insert_lines ks s0) =
           map (\<lambda>n. (linear_scan (heap (insert_lines ks s0)) (nat n),
                      linear_scan (heap (insert_lines ks s0)) (nat n), n)) qs"
proof -
  let ?s = "insert_lines ks s0"
  have r0: "registry s0 []"
    using init_buffers_registry(1) [OF init] .
  then have "addr_last s0 = 0"
    by (simp add: registry_def)
  then obtain ns where reg: "registry ?s ns" and len: "length ns = length ks"
    using insert_lines_registry [OF r0, of ks] ins by auto
  have al: "addr_last ?s = int (length ks)"
    using reg len by (simp add: registry_def)
  have r: "ring (heap ?s) ns"
    using reg by (simp add: registry_def)
  have "lookups qs ?s = map (\<lambda>n. ((Buffer_head # ns) ! nat n, (Buffer_head # ns) ! nat n, n)) qs"
    using lookups_registry [OF reg] range al by simp
  moreover have "\<And>n. n \<in> set qs \<Longrightarrow> (Buffer_head # ns) ! nat n = linear_scan (heap ?s) (nat n)"
  proof -
    fix n assume "n \<in> set qs"
    then have "nat n \<le> length ns" using range len by auto
    then show "(Buffer_head # ns) ! nat n = linear_scan (heap ?s) (nat n)"
      using linear_scan_ring [OF r] by simp
  qed
  ultimately have "lookups qs ?s =
      map (\<lambda>n. (linear_scan (heap ?s) (nat n), linear_scan (heap ?s) (nat n), n)) qs"
    by simp
  then show ?thesis using al by simp
qed

theorem cache_equivalence_witness:
  "init_buffers NoFault startup = Some (the (init_buffers NoFault startup)) \<and>
   valid_positions 0 [0, 0] \<and>
   lookups [2, 0, 1] (insert_lines [0, 0] (the (init_buffers NoFault startup))) =
     [(Node 0, Node 0, 2), (Buffer_head, Buffer_head, 0), (Node 1, Node 1, 1)]"
proof -
  let ?s = "insert_lines [0, 0] (the (init_buffers NoFault startup))"
  have a: "init_buffers NoFault startup = Some (the (init_buffers NoFault startup))"
    by (simp add: init_buffers_def open_sbuf_def)
  have b: "valid_positions 0 [0, 0]"
    by simp
  have c: "2 * int (length [0, 0 :: int]) \<le> INT_MAX"
    by (simp add: INT_MAX_def)
  have d: "\<forall>n \<in> set [2, 0, 1 :: int]. 0 \<le> n \<and> n \<le> int (length [0, 0 :: int])"
    by simp
  have "lookups [2, 0, 1] ?s =
          map (\<lambda>n. (linear_scan (heap ?s) (nat n), linear_scan (heap ?s) (nat n), n)) [2, 0, 1]"
    using cache_equivalence [OF a b c d] by (rule conjunct2)
  also have "\<dots> = [(Node 0, Node 0, 2), (Buffer_head, Buffer_head, 0), (Node 1, Node 1, 1)]"
    by code_simp
  finally show ?thesis
    using a b by blast
qed

text \<open>
  C3 (ordinal bijection).  In a well-formed registry with lines \<open>ns\<close>, every node of
  the ring (the sentinel and every line) has an address by \<^verbatim>\<open>get_line_node_addr\<close>, and
  \<^verbatim>\<open>get_addressed_line_node\<close> of that address is the node; and for every address \<open>n\<close>
  in \<open>[1, addr_last]\<close>, \<^verbatim>\<open>get_line_node_addr\<close> of the node that
  \<^verbatim>\<open>get_addressed_line_node n\<close> returns is \<open>n\<close>.
\<close>

theorem ordinal_bijection:
  assumes reg: "registry s ns" and small: "2 * addr_last s \<le> INT_MAX"
  shows "(\<forall>p \<in> set (Buffer_head # ns).
            \<exists>n. get_line_node_addr p s = Some (Inr n) \<and> fst (get_addressed_line_node n s) = p) \<and>
         (\<forall>n. 1 \<le> n \<and> n \<le> addr_last s \<longrightarrow>
            get_line_node_addr (fst (get_addressed_line_node n s))
              (snd (get_addressed_line_node n s)) = Some (Inr n))"
proof -
  have r: "ring (heap s) ns" and al: "addr_last s = int (length ns)"
    using reg by (simp_all add: registry_def)
  have bound: "int (length ns) \<le> INT_MAX"
    using small al by simp
  have one: "\<exists>n. get_line_node_addr p s = Some (Inr n) \<and> fst (get_addressed_line_node n s) = p"
    if pm: "p \<in> set (Buffer_head # ns)" for p
  proof -
    obtain i where il: "i \<le> length ns" and p: "p = (Buffer_head # ns) ! i"
      using member_nth [OF pm] by blast
    have a: "get_line_node_addr p s = Some (Inr (int i))"
      unfolding p by (rule get_line_node_addr_member [OF r bound il])
    have "0 \<le> int i" "int i \<le> addr_last s"
      using il al by simp_all
    then have "get_addressed_line_node (int i) s =
        ((Buffer_head # ns) ! nat (int i), s\<lparr>lp := (Buffer_head # ns) ! nat (int i), on := int i\<rparr>)"
      by (rule get_addressed_line_node_registry [OF reg])
    then have b: "fst (get_addressed_line_node (int i) s) = p"
      unfolding p by simp
    show ?thesis using a b by (intro exI conjI)
  qed
  have two: "get_line_node_addr (fst (get_addressed_line_node n s))
               (snd (get_addressed_line_node n s)) = Some (Inr n)"
    if n: "1 \<le> n \<and> n \<le> addr_last s" for n
  proof -
    let ?p = "(Buffer_head # ns) ! nat n"
    let ?s' = "s\<lparr>lp := ?p, on := n\<rparr>"
    have "0 \<le> n" "n \<le> addr_last s"
      using n by simp_all
    then have g: "get_addressed_line_node n s = (?p, ?s')"
      by (rule get_addressed_line_node_registry [OF reg])
    have r': "ring (heap ?s') ns"
      using r by simp
    have "nat n \<le> length ns"
      using n al by auto
    then have "get_line_node_addr ?p ?s' = Some (Inr (int (nat n)))"
      by (rule get_line_node_addr_member [OF r' bound])
    moreover have "int (nat n) = n"
      using n by simp
    ultimately show ?thesis
      unfolding g by simp
  qed
  show ?thesis
  proof (intro conjI ballI allI impI)
    fix p assume "p \<in> set (Buffer_head # ns)"
    then show "\<exists>n. get_line_node_addr p s = Some (Inr n) \<and> fst (get_addressed_line_node n s) = p"
      by (rule one)
  next
    fix n assume "1 \<le> n \<and> n \<le> addr_last s"
    then show "get_line_node_addr (fst (get_addressed_line_node n s))
                 (snd (get_addressed_line_node n s)) = Some (Inr n)"
      by (rule two)
  qed
qed

theorem ordinal_bijection_witness:
  "registry (insert_lines [0, 0] (the (init_buffers NoFault startup))) [Node 1, Node 0] \<and>
   get_line_node_addr (Node 0) (insert_lines [0, 0] (the (init_buffers NoFault startup)))
     = Some (Inr 2) \<and>
   fst (get_addressed_line_node 2 (insert_lines [0, 0] (the (init_buffers NoFault startup))))
     = Node 0 \<and>
   get_line_node_addr
     (fst (get_addressed_line_node 1 (insert_lines [0, 0] (the (init_buffers NoFault startup)))))
     (snd (get_addressed_line_node 1 (insert_lines [0, 0] (the (init_buffers NoFault startup)))))
     = Some (Inr 1)"
proof -
  let ?s = "insert_lines [0, 0] (the (init_buffers NoFault startup))"
  have reg: "registry ?s [Node 1, Node 0]"
    by code_simp
  have al: "addr_last ?s = 2"
    using reg by (simp add: registry_def)
  have small: "2 * addr_last ?s \<le> INT_MAX"
    unfolding al by (simp add: INT_MAX_def)
  note t = ordinal_bijection [OF reg small]
  have v: "get_line_node_addr (Node 0) ?s = Some (Inr 2)"
    by code_simp
  obtain n where "get_line_node_addr (Node 0) ?s = Some (Inr n)"
    and inv: "fst (get_addressed_line_node n ?s) = Node 0"
    using t by auto
  then have "n = 2" using v by simp
  then have a: "fst (get_addressed_line_node 2 ?s) = Node 0"
    using inv by simp
  have b: "get_line_node_addr (fst (get_addressed_line_node 1 ?s))
             (snd (get_addressed_line_node 1 ?s)) = Some (Inr 1)"
    using t al by simp
  show ?thesis using reg v a b by blast
qed

text \<open>
  C4, as the code has it.  \<^verbatim>\<open>get_addressed_line_node\<close> has no error path and checks no
  range: in a well-formed registry (of at most \<open>INT_MAX div 2\<close> lines) it returns a node of the ring (never the null
  pointer) for every address; address 0 resolves to the sentinel, the addresses in
  \<open>[0, addr_last]\<close> to the nodes at these positions, a negative address to the sentinel and
  an address above \<^verbatim>\<open>addr_last\<close> to the last node.
\<close>

theorem get_addressed_line_node_total:
  assumes reg: "registry s ns" and small: "2 * addr_last s \<le> INT_MAX"
  shows "fst (get_addressed_line_node 0 s) = Buffer_head \<and>
         (\<forall>n. fst (get_addressed_line_node n s) \<in> set (Buffer_head # ns) \<and>
              fst (get_addressed_line_node n s) \<noteq> Null) \<and>
         (\<forall>n. 0 \<le> n \<and> n \<le> addr_last s \<longrightarrow>
              fst (get_addressed_line_node n s) = (Buffer_head # ns) ! nat n) \<and>
         (\<forall>n. n < 0 \<longrightarrow> fst (get_addressed_line_node n s) = Buffer_head) \<and>
         (\<forall>n. n > addr_last s \<longrightarrow>
              fst (get_addressed_line_node n s) = last (Buffer_head # ns))"
proof -
  have al: "addr_last s = int (length ns)"
    and allo: "list_all (allocated (brk s)) ns"
    using reg by (simp_all add: registry_def)
  have nn: "Null \<notin> set (Buffer_head # ns)"
    using allo by (auto simp: list_all_iff)
  have lastn: "(Buffer_head # ns) ! length ns = last (Buffer_head # ns)"
    by (metis diff_Suc_1 last_conv_nth length_Cons list.distinct(1))
  have inr: "fst (get_addressed_line_node n s) = (Buffer_head # ns) ! nat n"
    if "0 \<le> n \<and> n \<le> addr_last s" for n
    using get_addressed_line_node_registry [OF reg, of n] that by simp
  have below: "fst (get_addressed_line_node n s) = Buffer_head" if "n < 0" for n
    using get_addressed_line_node_below [OF reg that] by simp
  have above: "fst (get_addressed_line_node n s) = last (Buffer_head # ns)"
    if "n > addr_last s" for n
    using get_addressed_line_node_above [OF reg that] lastn by simp
  have mem: "fst (get_addressed_line_node n s) \<in> set (Buffer_head # ns)" for n
  proof -
    consider "n < 0" | "0 \<le> n \<and> n \<le> addr_last s" | "n > addr_last s"
      by linarith
    then show ?thesis
    proof cases
      case 1
      then show ?thesis using below by simp
    next
      case 2
      then have "nat n < length (Buffer_head # ns)" using al by auto
      then show ?thesis using inr [OF 2] by (metis nth_mem)
    next
      case 3
      then show ?thesis using above by (metis last_in_set list.distinct(1))
    qed
  qed
  have zero: "fst (get_addressed_line_node 0 s) = Buffer_head"
    using inr [of 0] al by simp
  have nonnull: "fst (get_addressed_line_node n s) \<noteq> Null" for n
    using mem [of n] nn by metis
  show ?thesis
    using zero mem nonnull inr below above by (intro conjI allI impI) blast+
qed

theorem get_addressed_line_node_total_witness:
  "registry (insert_lines [0, 0] (the (init_buffers NoFault startup))) [Node 1, Node 0] \<and>
   fst (get_addressed_line_node 0 (insert_lines [0, 0] (the (init_buffers NoFault startup))))
     = Buffer_head \<and>
   fst (get_addressed_line_node 1 (insert_lines [0, 0] (the (init_buffers NoFault startup))))
     = Node 1 \<and>
   fst (get_addressed_line_node (- 1) (insert_lines [0, 0] (the (init_buffers NoFault startup))))
     = Buffer_head \<and>
   fst (get_addressed_line_node 3 (insert_lines [0, 0] (the (init_buffers NoFault startup))))
     = Node 0"
proof -
  let ?s = "insert_lines [0, 0] (the (init_buffers NoFault startup))"
  have reg: "registry ?s [Node 1, Node 0]"
    by code_simp
  have al: "addr_last ?s = 2"
    using reg by (simp add: registry_def)
  have small: "2 * addr_last ?s \<le> INT_MAX"
    unfolding al by (simp add: INT_MAX_def)
  note t = get_addressed_line_node_total [OF reg small]
  have a: "fst (get_addressed_line_node 0 ?s) = Buffer_head"
    using t by blast
  have b: "fst (get_addressed_line_node 1 ?s) = Node 1"
    using t al by simp
  have c: "fst (get_addressed_line_node (- 1) ?s) = Buffer_head"
    using t by simp
  have d: "fst (get_addressed_line_node 3 ?s) = Node 0"
    using t al by simp
  show ?thesis using reg a b c d by blast
qed

text \<open>
  C4 as stated fails: on the empty buffer (\<^verbatim>\<open>addr_last\<close> is 0) the addresses 1 and -1
  are outside \<open>[0, count]\<close>, and the function returns the sentinel for both.
\<close>

theorem node_at_out_of_range_counterexample:
  "addr_last (the (init_buffers NoFault startup)) = 0 \<and>
   fst (get_addressed_line_node 1 (the (init_buffers NoFault startup))) = Buffer_head \<and>
   fst (get_addressed_line_node (- 1) (the (init_buffers NoFault startup))) = Buffer_head"
  by code_simp

text \<open>
  C9, as the code has it.  On a ring with lines \<open>ns\<close>, \<^verbatim>\<open>get_line_node_addr\<close> returns
  the position of every node of the ring (0 for the sentinel, \<open>i\<close> for the \<open>i\<close>-th line).
  For a node that is not in the ring it reports "invalid address" when the buffer has
  at least one line; on the empty buffer the test \<^verbatim>\<open>n && cp == &buffer_head\<close> does
  not fire and it returns 0.
\<close>

theorem get_line_node_addr_positions:
  assumes r: "ring (heap s) ns" and bound: "int (length ns) \<le> INT_MAX"
  shows "(\<forall>i. i \<le> length ns \<longrightarrow>
            get_line_node_addr ((Buffer_head # ns) ! i) s = Some (Inr (int i))) \<and>
         (\<forall>p. p \<notin> set (Buffer_head # ns) \<and> ns \<noteq> [] \<longrightarrow>
            get_line_node_addr p s = Some (Inl InvalidAddress)) \<and>
         (\<forall>p. p \<notin> set (Buffer_head # ns) \<and> ns = [] \<longrightarrow>
            get_line_node_addr p s = Some (Inr 0))"
  using get_line_node_addr_member [OF r bound] get_line_node_addr_foreign [OF r bound]
  by simp

theorem get_line_node_addr_positions_witness:
  "ring (heap (insert_lines [0, 0] (the (init_buffers NoFault startup)))) [Node 1, Node 0] \<and>
   get_line_node_addr Buffer_head (insert_lines [0, 0] (the (init_buffers NoFault startup)))
     = Some (Inr 0) \<and>
   get_line_node_addr (Node 0) (insert_lines [0, 0] (the (init_buffers NoFault startup)))
     = Some (Inr 2) \<and>
   get_line_node_addr (Node 5) (insert_lines [0, 0] (the (init_buffers NoFault startup)))
     = Some (Inl InvalidAddress) \<and>
   ring (heap (the (init_buffers NoFault startup))) [] \<and>
   get_line_node_addr (Node 5) (the (init_buffers NoFault startup)) = Some (Inr 0)"
proof -
  let ?s = "insert_lines [0, 0] (the (init_buffers NoFault startup))"
  let ?e = "the (init_buffers NoFault startup)"
  have r: "ring (heap ?s) [Node 1, Node 0]"
    by code_simp
  have bound: "int (length [Node 1, Node 0]) \<le> INT_MAX"
    by (simp add: INT_MAX_def)
  note t = get_line_node_addr_positions [OF r bound]
  have a: "get_line_node_addr Buffer_head ?s = Some (Inr 0)"
    using t by (metis bot_nat_0.extremum nth_Cons_0 of_nat_0)
  have "get_line_node_addr ((Buffer_head # [Node 1, Node 0]) ! 2) ?s = Some (Inr (int 2))"
    using t by (metis length_Cons list.size(3) numeral_2_eq_2 order_refl)
  then have b: "get_line_node_addr (Node 0) ?s = Some (Inr 2)"
    by simp
  have c: "get_line_node_addr (Node 5) ?s = Some (Inl InvalidAddress)"
    using t by simp
  have r0: "ring (heap ?e) []"
    by code_simp
  have d: "get_line_node_addr (Node 5) ?e = Some (Inr 0)"
    using get_line_node_addr_positions [OF r0] by (simp add: INT_MAX_def)
  show ?thesis using r a b c r0 d by blast
qed

text \<open>
  C9 as stated fails: on the empty buffer the node \<open>Node 7\<close> is not linked into the
  ring, and \<^verbatim>\<open>get_line_node_addr\<close> returns 0 for it, not "invalid address".
\<close>

theorem get_line_node_addr_empty_counterexample:
  "ring (heap (the (init_buffers NoFault startup))) [] \<and>
   Node 7 \<notin> set [Buffer_head] \<and>
   get_line_node_addr (Node 7) (the (init_buffers NoFault startup)) = Some (Inr 0)"
  by code_simp

section \<open>The scratch file\<close>

lemma scan_nl_line:
  "NL \<notin> set t \<Longrightarrow> scan_nl (t @ NL # rest) = Some (t, rest)"
  by (induction t) auto

lemma scan_nl_Some:
  "scan_nl cs = Some (t, rest) \<Longrightarrow> cs = t @ NL # rest \<and> NL \<notin> set t"
  by (induction cs arbitrary: t) (auto split: if_splits option.splits)

lemma INSQUE_adr [simp]: "adr (INSQUE e c h x) = adr (h x)"
  by (simp add: INSQUE_def REQUE_def Let_def)

lemma INSQUE_llen [simp]: "llen (INSQUE e c h x) = llen (h x)"
  by (simp add: INSQUE_def REQUE_def Let_def)

text \<open>\<^verbatim>\<open>add_line_node\<close> touches the links, the cache and the two addresses, nothing else.\<close>

lemma add_line_node_frame [simp]:
  "sfp (add_line_node p s) = sfp s"
  "sfpos (add_line_node p s) = sfpos s"
  "seek_write (add_line_node p s) = seek_write s"
  "brk (add_line_node p s) = brk s"
  "sfbufsz (add_line_node p s) = sfbufsz s"
  "adr (heap (add_line_node p s) x) = adr (heap s x)"
  "llen (heap (add_line_node p s) x) = llen (heap s x)"
  by (simp_all add: add_line_node_def get_addressed_line_node_def Let_def split: prod.splits)

text \<open>The stream after writing \<open>t\<close> at position \<open>pos\<close>.\<close>

lemma fwrite_all:
  "fwrite NoFault t (length t) (Some f) =
     (length t,
      Some (f\<lparr>bytes := take (fpos f) (bytes f @ replicate (fpos f - length (bytes f)) (CHR 0x00))
                        @ t @ drop (fpos f + length t)
                               (bytes f @ replicate (fpos f - length (bytes f)) (CHR 0x00)),
              fpos := fpos f + length t\<rparr>))"
  by (simp add: fwrite_def xfer_def Let_def)

lemma fwrite_count:
  "fst (fwrite env t (length t) (Some f)) = length t \<Longrightarrow>
   fwrite env t (length t) (Some f) = fwrite NoFault t (length t) (Some f)"
  by (auto simp: fwrite_def xfer_def Let_def split: fault.splits)

lemma fwrite_fpos:
  "fwrite env t n (Some f) = (k, Some f') \<Longrightarrow> fpos f' = fpos f + k"
  by (auto simp: fwrite_def Let_def)

lemma fread_written:
  assumes "length pre = pos"
  shows "fread NoFault (length t) (Some \<lparr>bytes = pre @ t @ post, fpos = pos\<rparr>)
           = (t, Some \<lparr>bytes = pre @ t @ post, fpos = pos + length t\<rparr>)"
  using assms by (simp add: fread_def xfer_def Let_def)

lemma put_sbuf_line_oom:
  "put_sbuf_line L AllocFails cs s = (Inl OutOfMemory, s)"
  by (simp add: put_sbuf_line_def malloc_def)

lemma put_sbuf_line_too_long:
  assumes "scan_nl cs = Some (t, rest)" "L \<le> length t" "env \<noteq> AllocFails"
  shows "put_sbuf_line L env cs s = (Inl LineTooLong, s\<lparr>brk := Suc (brk s)\<rparr>)"
  using assms by (simp add: put_sbuf_line_def malloc_def free_def)

lemma put_sbuf_line_seek_fails:
  assumes "scan_nl cs = Some (t, rest)" "length t < L" "seek_write s"
  shows "put_sbuf_line L SeekFails cs s = (Inl CannotSeek, s\<lparr>brk := Suc (brk s)\<rparr>)"
  using assms
  by (simp add: put_sbuf_line_def malloc_def free_def do_fseek_def split: option.splits)

text \<open>The position at which \<^verbatim>\<open>put_sbuf_line\<close> writes, and the value of \<^verbatim>\<open>sfpos\<close> at
  that moment (after the seek to the end of the file when \<^verbatim>\<open>seek_write\<close> is set).\<close>

lemma put_sbuf_line_result:
  assumes sc: "scan_nl cs = Some (t, rest)" and len: "length t < L"
    and env: "env \<noteq> AllocFails" and sk: "seek_write s \<longrightarrow> env \<noteq> SeekFails"
    and fp: "sfp s = Some f"
    and pos: "pos = (if seek_write s then length (bytes f) else fpos f)"
    and cur: "cur = (if seek_write s then int (length (bytes f)) else sfpos s)"
  shows "put_sbuf_line L env cs s =
     (let s1 = s\<lparr>brk := Suc (brk s), sfp := Some (f\<lparr>fpos := pos\<rparr>), sfpos := cur,
                   seek_write := False\<rparr>;
          w = fwrite env t (length t) (Some (f\<lparr>fpos := pos\<rparr>))
      in if fst w \<noteq> length t then (Inl CannotWrite, s1\<lparr>sfp := snd w, sfpos := - 1\<rparr>)
         else (Inr rest,
               (add_line_node (Node (brk s))
                  (s1\<lparr>sfp := snd w,
                      heap := (heap s)(Node (brk s) :=
                                 (heap s (Node (brk s)))\<lparr>llen := length t, adr := cur\<rparr>)\<rparr>))
               \<lparr>sfpos := cur + int (length t)\<rparr>))"
proof (cases "seek_write s")
  case True
  then have "do_fseek env (Some f) 0 SEEK_END = Some (f\<lparr>fpos := length (bytes f)\<rparr>)"
    using sk by (simp add: do_fseek_def)
  then show ?thesis
    using True sc len env fp pos cur
    by (simp add: put_sbuf_line_def malloc_def free_def do_ftell_def Let_def split: prod.splits)
next
  case False
  have "f\<lparr>fpos := fpos f\<rparr> = f" by simp
  then show ?thesis
    using False sc len env fp pos cur
    by (cases s) (simp add: put_sbuf_line_def malloc_def free_def Let_def split: prod.splits)
qed

lemma get_sbuf_line_head:
  "get_sbuf_line env Buffer_head s = (Inr None, s)"
  by (simp add: get_sbuf_line_def)

lemma get_sbuf_line_sets_seek_write:
  "p \<noteq> Buffer_head \<Longrightarrow> seek_write (snd (get_sbuf_line env p s))"
  by (simp add: get_sbuf_line_def Let_def split: option.splits sum.splits prod.splits)

lemma get_sbuf_line_seek_fails:
  assumes "p \<noteq> Buffer_head" "sfpos s \<noteq> adr (heap s p)"
  shows "get_sbuf_line SeekFails p s
           = (Inl CannotSeek, s\<lparr>seek_write := True, sfpos := adr (heap s p)\<rparr>)"
  using assms by (simp add: get_sbuf_line_def do_fseek_def Let_def split: option.splits)

text \<open>A successful read leaves \<^verbatim>\<open>sfpos\<close> at the real file position, when it was there
  before or when the read had to seek.\<close>

lemma get_sbuf_line_synced:
  assumes "cursor_synced s" "get_sbuf_line env p s = (Inr r, s')"
  shows "cursor_synced s'"
proof (cases "p = Buffer_head")
  case True
  then show ?thesis using assms by (simp add: get_sbuf_line_def)
next
  case False
  obtain f where f: "sfp s = Some f" and c: "sfpos s = int (fpos f)"
    using assms(1) by (auto simp: cursor_synced_def split: option.splits)
  show ?thesis
  proof (cases "sfpos s = adr (heap s p)")
    case True
    then show ?thesis
      using False f c assms(2)
      by (auto simp: get_sbuf_line_def cursor_synced_def fread_def Let_def
          split: option.splits if_splits)
  next
    case ne: False
    then show ?thesis
      using False f assms(2)
      by (auto simp: get_sbuf_line_def cursor_synced_def fread_def do_fseek_def Let_def
          split: option.splits if_splits)
  qed
qed

lemma get_sbuf_line_reads:
  assumes p: "p \<noteq> Buffer_head"
    and fp: "sfp s = Some \<lparr>bytes = pre @ t @ post, fpos = q\<rparr>"
    and pre: "length pre = pos"
    and ad: "adr (heap s p) = int pos" and ll: "llen (heap s p) = length t"
    and sync: "sfpos s = int q"
  shows "fst (get_sbuf_line NoFault p s) = Inr (Some t)"
proof -
  have rd: "fread NoFault (length t) (Some \<lparr>bytes = pre @ t @ post, fpos = pos\<rparr>)
              = (t, Some \<lparr>bytes = pre @ t @ post, fpos = pos + length t\<rparr>)"
    using fread_written [OF pre] .
  show ?thesis
  proof (cases "q = pos")
    case True
    then show ?thesis
      using p fp ad ll sync rd
      by (simp add: get_sbuf_line_def REALLOC_def Let_def)
  next
    case False
    then show ?thesis
      using p fp ad ll sync rd
      by (simp add: get_sbuf_line_def REALLOC_def do_fseek_def Let_def)
  qed
qed

lemma fwrite_NoFault_shape:
  "\<exists>pre post. length pre = fpos f \<and>
     fwrite NoFault t (length t) (Some f)
       = (length t, Some \<lparr>bytes = pre @ t @ post, fpos = fpos f + length t\<rparr>)"
proof -
  let ?old = "bytes f @ replicate (fpos f - length (bytes f)) (CHR 0x00)"
  have "length (take (fpos f) ?old) = fpos f"
    by simp
  moreover have "f\<lparr>bytes := take (fpos f) ?old @ t @ drop (fpos f + length t) ?old,
                   fpos := fpos f + length t\<rparr>
                 = \<lparr>bytes = take (fpos f) ?old @ t @ drop (fpos f + length t) ?old,
                    fpos = fpos f + length t\<rparr>"
    by simp
  ultimately show ?thesis
    unfolding fwrite_all by blast
qed

lemma put_sbuf_line_success:
  assumes "put_sbuf_line L env cs s = (Inr rest, s')"
  shows "env \<noteq> AllocFails \<and> (seek_write s \<longrightarrow> env \<noteq> SeekFails \<and> sfp s \<noteq> None) \<and>
         (\<exists>t. scan_nl cs = Some (t, rest) \<and> length t < L)"
  using assms
  by (auto simp: put_sbuf_line_def malloc_def free_def do_fseek_def Let_def
      split: if_splits option.splits prod.splits)

text \<open>What a successful \<^verbatim>\<open>put_sbuf_line\<close> leaves: the new node \<open>Node (brk s)\<close> with the
  cursor at the time of the write and the length of the text, the cursor advanced by the
  length, and the file position advanced from where the write began.\<close>

lemma put_sbuf_line_post:
  assumes ok: "put_sbuf_line L env cs s = (Inr rest, s')" and fp: "sfp s = Some f"
    and sc: "scan_nl cs = Some (t, rest)"
    and pos: "pos = (if seek_write s then length (bytes f) else fpos f)"
    and cur: "cur = (if seek_write s then int (length (bytes f)) else sfpos s)"
  shows "adr (heap s' (Node (brk s))) = cur"
    and "llen (heap s' (Node (brk s))) = length t"
    and "sfpos s' = cur + int (length t)"
    and "\<not> seek_write s'"
    and "brk s' = Suc (brk s)"
    and "x \<noteq> Node (brk s) \<Longrightarrow> adr (heap s' x) = adr (heap s x)"
    and "x \<noteq> Node (brk s) \<Longrightarrow> llen (heap s' x) = llen (heap s x)"
    and "\<exists>f'. sfp s' = Some f' \<and> fpos f' = pos + length t \<and>
           fwrite env t (length t) (Some (f\<lparr>fpos := pos\<rparr>)) = (length t, Some f')"
proof -
  have len: "length t < L"
    and env: "env \<noteq> AllocFails" and sk: "seek_write s \<longrightarrow> env \<noteq> SeekFails"
    using put_sbuf_line_success [OF ok] sc by auto
  let ?w = "fwrite env t (length t) (Some (f\<lparr>fpos := pos\<rparr>))"
  note res = put_sbuf_line_result [OF sc len env sk fp pos cur]
  have w: "fst ?w = length t"
    using ok unfolding res by (auto simp: Let_def split: if_splits)
  obtain f' where f': "snd ?w = Some f'"
    by (auto simp: fwrite_def Let_def)
  have weq: "?w = (length t, Some f')"
    using w f' by (metis prod.collapse)
  have fp': "fpos f' = pos + length t"
    using fwrite_fpos [OF weq] by simp
  have s': "s' = (add_line_node (Node (brk s))
                  (s\<lparr>brk := Suc (brk s), sfp := Some (f\<lparr>fpos := pos\<rparr>), sfpos := cur,
                      seek_write := False, sfp := snd ?w,
                      heap := (heap s)(Node (brk s) :=
                                 (heap s (Node (brk s)))\<lparr>llen := length t, adr := cur\<rparr>)\<rparr>))
               \<lparr>sfpos := cur + int (length t)\<rparr>"
    using ok w unfolding res by (simp add: Let_def)
  show "adr (heap s' (Node (brk s))) = cur"
    unfolding s' by simp
  show "llen (heap s' (Node (brk s))) = length t"
    unfolding s' by simp
  show "sfpos s' = cur + int (length t)"
    unfolding s' by simp
  show "\<not> seek_write s'"
    unfolding s' by simp
  show "brk s' = Suc (brk s)"
    unfolding s' by simp
  show "x \<noteq> Node (brk s) \<Longrightarrow> adr (heap s' x) = adr (heap s x)"
    unfolding s' by simp
  show "x \<noteq> Node (brk s) \<Longrightarrow> llen (heap s' x) = llen (heap s x)"
    unfolding s' by simp
  have "sfp s' = Some f'"
    unfolding s' using f' by simp
  then show "\<exists>f'. sfp s' = Some f' \<and> fpos f' = pos + length t \<and>
           fwrite env t (length t) (Some (f\<lparr>fpos := pos\<rparr>)) = (length t, Some f')"
    using fp' weq by blast
qed

lemma put_sbuf_line_NoFault_ok:
  assumes sc: "scan_nl cs = Some (t, rest)" and len: "length t < L" and fp: "sfp s = Some f"
  shows "\<exists>s'. put_sbuf_line L NoFault cs s = (Inr rest, s')"
proof -
  have "put_sbuf_line L NoFault cs s =
     (let s1 = s\<lparr>brk := Suc (brk s),
                   sfp := Some (f\<lparr>fpos := (if seek_write s then length (bytes f) else fpos f)\<rparr>),
                   sfpos := (if seek_write s then int (length (bytes f)) else sfpos s),
                   seek_write := False\<rparr>;
          w = fwrite NoFault t (length t)
                (Some (f\<lparr>fpos := (if seek_write s then length (bytes f) else fpos f)\<rparr>))
      in if fst w \<noteq> length t then (Inl CannotWrite, s1\<lparr>sfp := snd w, sfpos := - 1\<rparr>)
         else (Inr rest,
               (add_line_node (Node (brk s))
                  (s1\<lparr>sfp := snd w,
                      heap := (heap s)(Node (brk s) :=
                                 (heap s (Node (brk s)))\<lparr>llen := length t,
                                    adr := (if seek_write s then int (length (bytes f)) else sfpos s)\<rparr>)\<rparr>))
               \<lparr>sfpos := (if seek_write s then int (length (bytes f)) else sfpos s)
                           + int (length t)\<rparr>))"
    by (rule put_sbuf_line_result [OF sc len _ _ fp]) simp_all
  moreover have "fst (fwrite NoFault t (length t)
                (Some (f\<lparr>fpos := (if seek_write s then length (bytes f) else fpos f)\<rparr>))) = length t"
    unfolding fwrite_all by simp
  ultimately show ?thesis
    by (simp add: Let_def)
qed

lemma init_buffers_brk:
  "init_buffers env startup = Some s \<Longrightarrow> brk s = 0"
  by (auto simp: init_buffers_def open_sbuf_def startup_def split: if_splits)

lemma put_sbuf_line_write_fails:
  "put_sbuf_line L env cs s = (Inl CannotWrite, s') \<Longrightarrow> sfpos s' = - 1"
  by (auto simp: put_sbuf_line_def malloc_def free_def Let_def
      split: if_splits option.splits prod.splits)

lemma put_sbuf_line_synced:
  assumes ok: "put_sbuf_line L env cs s = (Inr rest, s')"
    and pre: "seek_write s \<or> cursor_synced s"
  shows "cursor_synced s'"
proof -
  have "sfp s \<noteq> None"
    using put_sbuf_line_success [OF ok] pre by (auto simp: cursor_synced_def split: option.splits)
  then obtain f where fp: "sfp s = Some f" by blast
  obtain t where sc: "scan_nl cs = Some (t, rest)"
    using put_sbuf_line_success [OF ok] by blast
  let ?pos = "if seek_write s then length (bytes f) else fpos f"
  let ?cur = "if seek_write s then int (length (bytes f)) else sfpos s"
  have eq: "?cur = int ?pos"
    using pre fp by (auto simp: cursor_synced_def)
  have a: "sfpos s' = ?cur + int (length t)"
    using put_sbuf_line_post(3) [OF ok fp sc refl refl] .
  obtain f' where b: "sfp s' = Some f'" and c: "fpos f' = ?pos + length t"
    using put_sbuf_line_post(8) [OF ok fp sc refl refl] by blast
  show ?thesis
    using a b c unfolding eq by (simp add: cursor_synced_def)
qed

lemma close_sbuf_cases:
  "close_sbuf env s =
     (if sfp s \<noteq> None \<and> env = CloseFails then (Inl CannotClose, s)
      else if sfp s \<noteq> None
        then (Inr 0, s\<lparr>tmpfile_exists := False, sfp := None, sfpos := 0, seek_write := False\<rparr>)
      else (Inr 0, s\<lparr>sfpos := 0, seek_write := False\<rparr>))"
  by (auto simp: close_sbuf_def split: option.splits)

lemma ring_heap_cong:
  assumes "ring h ns"
    and "\<And>x. x \<in> set (Buffer_head # ns) \<Longrightarrow> q_forw (h' x) = q_forw (h x) \<and> q_back (h' x) = q_back (h x)"
  shows "ring h' ns"
proof -
  have "map (\<lambda>p. q_forw (h' p)) (Buffer_head # ns) = map (\<lambda>p. q_forw (h p)) (Buffer_head # ns)"
    using assms(2) by (intro map_cong) auto
  moreover have "map (\<lambda>p. q_back (h' p)) (ns @ [Buffer_head]) = map (\<lambda>p. q_back (h p)) (ns @ [Buffer_head])"
    using assms(2) by (intro map_cong) auto
  ultimately show ?thesis
    using assms(1) unfolding ring_def by (simp only:) 
qed

text \<open>A successful \<^verbatim>\<open>put_sbuf_line\<close> keeps the registry well formed: the new node is
  linked after the line that was current, and it is the new current line, the one
  \<^verbatim>\<open>get_addressed_line_node\<close> finds at \<^verbatim>\<open>current_addr\<close>.\<close>

lemma put_sbuf_line_registry:
  assumes ok: "put_sbuf_line L env cs s = (Inr rest, s')" and fp: "sfp s = Some f"
    and reg: "registry s ns" and lo: "0 \<le> current_addr s" and hi: "current_addr s \<le> addr_last s"
    and k: "k = nat (current_addr s)"
  shows "registry s' (take k ns @ Node (brk s) # drop k ns)"
    and "current_addr s' = current_addr s + 1"
    and "fst (get_addressed_line_node (current_addr s') s') = Node (brk s)"
proof -
  let ?e = "Node (brk s)"
  let ?pos = "if seek_write s then length (bytes f) else fpos f"
  let ?cur = "if seek_write s then int (length (bytes f)) else sfpos s"
  obtain t where sc: "scan_nl cs = Some (t, rest)" and len: "length t < L"
    and env: "env \<noteq> AllocFails" and sk: "seek_write s \<longrightarrow> env \<noteq> SeekFails"
    using put_sbuf_line_success [OF ok] by blast
  let ?w = "fwrite env t (length t) (Some (f\<lparr>fpos := ?pos\<rparr>))"
  let ?m = "s\<lparr>brk := Suc (brk s), sfp := Some (f\<lparr>fpos := ?pos\<rparr>), sfpos := ?cur,
              seek_write := False, sfp := snd ?w,
              heap := (heap s)(?e := (heap s ?e)\<lparr>llen := length t, adr := ?cur\<rparr>)\<rparr>"
  note res = put_sbuf_line_result [OF sc len env sk fp refl refl]
  have w: "fst ?w = length t"
    using ok unfolding res by (auto simp: Let_def split: if_splits)
  have s': "s' = (add_line_node ?e ?m)\<lparr>sfpos := ?cur + int (length t)\<rparr>"
    using ok w unfolding res by (simp add: Let_def)
  have fresh: "?e \<notin> set (Buffer_head # ns)"
    using allocated_fresh reg by (simp add: registry_def)
  have r: "ring (heap ?m) ns"
  proof (rule ring_heap_cong)
    show "ring (heap s) ns" using reg by (simp add: registry_def)
  next
    fix x assume "x \<in> set (Buffer_head # ns)"
    then have "x \<noteq> ?e" using fresh by auto
    then show "q_forw (heap ?m x) = q_forw (heap s x) \<and> q_back (heap ?m x) = q_back (heap s x)"
      by simp
  qed
  have regm: "registry ?m ns"
    using reg r by (auto simp: registry_def list_all_iff intro: allocated_mono)
  note a = add_line_node_registry [OF regm _ _ fresh _ , of k]
  have ra: "registry (add_line_node ?e ?m) (take k ns @ ?e # drop k ns)"
    and ca: "current_addr (add_line_node ?e ?m) = current_addr s + 1"
    using a lo hi k by simp_all
  show reg': "registry s' (take k ns @ ?e # drop k ns)"
    unfolding s' using ra by (simp add: registry_def)
  show cur': "current_addr s' = current_addr s + 1"
    unfolding s' using ca by simp
  have kl: "k \<le> length ns"
    using reg hi k by (simp add: registry_def)
  have al': "addr_last s' = addr_last s + 1"
    using reg' reg kl by (simp add: registry_def)
  have "(Buffer_head # take k ns @ ?e # drop k ns) ! nat (current_addr s + 1) = ?e"
  proof -
    have "nat (current_addr s + 1) = Suc k" using lo k by simp
    moreover have "length (take k ns) = k" using kl by simp
    ultimately show ?thesis by (simp add: nth_append)
  qed
  then show "fst (get_addressed_line_node (current_addr s') s') = ?e"
    using get_addressed_line_node_registry [OF reg', of "current_addr s'"] cur' al' lo hi
    by simp
qed

lemma fwrite_short:
  "fst (fwrite (ShortIO k) t (length t) (Some f)) = min k (length t)"
  by (simp add: fwrite_def xfer_def Let_def)

text \<open>A short write: \<^verbatim>\<open>fwrite\<close> moves fewer bytes than the line has, and \<^verbatim>\<open>put_sbuf_line\<close>
  reports "cannot write temp file" with the cursor set to -1.\<close>

lemma put_sbuf_line_short_write:
  assumes sc: "scan_nl cs = Some (t, rest)" and len: "length t < L" and fp: "sfp s = Some f"
    and k: "k < length t"
  shows "\<exists>s'. put_sbuf_line L (ShortIO k) cs s = (Inl CannotWrite, s') \<and> sfpos s' = - 1"
proof -
  let ?pos = "if seek_write s then length (bytes f) else fpos f"
  have "fst (fwrite (ShortIO k) t (length t) (Some (f\<lparr>fpos := ?pos\<rparr>))) \<noteq> length t"
    unfolding fwrite_short using k by simp
  then show ?thesis
    unfolding put_sbuf_line_result [OF sc len _ _ fp refl refl, of "ShortIO k", simplified]
    by (simp add: Let_def)
qed

section \<open>The claims about the scratch file\<close>

text \<open>
  C8 (append postcondition).  When \<^verbatim>\<open>put_sbuf_line\<close> succeeds on an open scratch file,
  the new node has \<^verbatim>\<open>adr\<close> equal to the cursor immediately before the write (the end of
  the file when \<^verbatim>\<open>seek_write\<close> made it seek there, else the old \<^verbatim>\<open>sfpos\<close>) and \<^verbatim>\<open>llen\<close>
  equal to the length of the text before the newline, and \<^verbatim>\<open>sfpos\<close> has advanced by
  exactly that length.  And: two successive appends of 5-byte lines after
  \<^verbatim>\<open>init_buffers\<close> succeed and give the nodes \<open>(adr, llen) = (0, 5)\<close> and \<open>(5, 5)\<close>.
\<close>

theorem put_sbuf_line_descriptor:
  "(put_sbuf_line L env cs s = (Inr rest, s') \<and> sfp s = Some f \<longrightarrow>
      (\<exists>t. scan_nl cs = Some (t, rest) \<and>
           adr (heap s' (Node (brk s)))
             = (if seek_write s then int (length (bytes f)) else sfpos s) \<and>
           llen (heap s' (Node (brk s))) = length t \<and>
           sfpos s' = (if seek_write s then int (length (bytes f)) else sfpos s)
                        + int (length t))) \<and>
   (init_buffers NoFault startup = Some s0 \<and> length t1 = 5 \<and> length t2 = 5 \<and>
    NL \<notin> set t1 \<and> NL \<notin> set t2 \<and> 5 < M \<longrightarrow>
      (\<exists>s1 s2. put_sbuf_line M NoFault (t1 @ [NL]) s0 = (Inr [], s1) \<and>
               put_sbuf_line M NoFault (t2 @ [NL]) s1 = (Inr [], s2) \<and>
               adr (heap s2 (Node 0)) = 0 \<and> llen (heap s2 (Node 0)) = 5 \<and>
               adr (heap s2 (Node 1)) = 5 \<and> llen (heap s2 (Node 1)) = 5))"
proof (intro conjI impI)
  assume a: "put_sbuf_line L env cs s = (Inr rest, s') \<and> sfp s = Some f"
  then have ok: "put_sbuf_line L env cs s = (Inr rest, s')" and fp: "sfp s = Some f"
    by simp_all
  obtain t where sc: "scan_nl cs = Some (t, rest)"
    using put_sbuf_line_success [OF ok] by blast
  show "\<exists>t. scan_nl cs = Some (t, rest) \<and>
           adr (heap s' (Node (brk s)))
             = (if seek_write s then int (length (bytes f)) else sfpos s) \<and>
           llen (heap s' (Node (brk s))) = length t \<and>
           sfpos s' = (if seek_write s then int (length (bytes f)) else sfpos s)
                        + int (length t)"
    using sc put_sbuf_line_post(1-3) [OF ok fp sc refl refl] by blast
next
  assume a: "init_buffers NoFault startup = Some s0 \<and> length t1 = 5 \<and> length t2 = 5 \<and>
    NL \<notin> set t1 \<and> NL \<notin> set t2 \<and> 5 < M"
  then have init: "init_buffers NoFault startup = Some s0"
    and l1: "length t1 = 5" and l2: "length t2 = 5"
    and n1: "NL \<notin> set t1" and n2: "NL \<notin> set t2" and M: "5 < M"
    by simp_all
  have fp0: "sfp s0 = Some \<lparr>bytes = [], fpos = 0\<rparr>" and c0: "sfpos s0 = 0"
    and sw0: "\<not> seek_write s0" and b0: "brk s0 = 0"
    using init_buffers_registry(2-4) [OF init] init_buffers_brk [OF init] by simp_all
  have sc1: "scan_nl (t1 @ [NL]) = Some (t1, [])" and sc2: "scan_nl (t2 @ [NL]) = Some (t2, [])"
    using scan_nl_line [OF n1, of "[]"] scan_nl_line [OF n2, of "[]"] by simp_all
  obtain s1 where p1: "put_sbuf_line M NoFault (t1 @ [NL]) s0 = (Inr [], s1)"
    using put_sbuf_line_NoFault_ok [OF sc1 _ fp0, of M] l1 M by auto
  note q1 = put_sbuf_line_post [OF p1 fp0 sc1 refl refl]
  have a1: "adr (heap s1 (Node 0)) = 0" and ll1: "llen (heap s1 (Node 0)) = 5"
    and c1: "sfpos s1 = 5" and sw1: "\<not> seek_write s1" and b1: "brk s1 = 1"
    using q1(1-5) sw0 c0 b0 l1 by simp_all
  obtain f1 where fp1: "sfp s1 = Some f1"
    using q1(8) by blast
  obtain s2 where p2: "put_sbuf_line M NoFault (t2 @ [NL]) s1 = (Inr [], s2)"
    using put_sbuf_line_NoFault_ok [OF sc2 _ fp1, of M] l2 M by auto
  note q2 = put_sbuf_line_post [OF p2 fp1 sc2 refl refl]
  have a2: "adr (heap s2 (Node 1)) = 5" and ll2: "llen (heap s2 (Node 1)) = 5"
    using q2(1-2) sw1 c1 b1 l2 by simp_all
  have k1: "adr (heap s2 (Node 0)) = 0" and k2: "llen (heap s2 (Node 0)) = 5"
    using q2(6) [of "Node 0"] q2(7) [of "Node 0"] b1 a1 ll1 by simp_all
  show "\<exists>s1 s2. put_sbuf_line M NoFault (t1 @ [NL]) s0 = (Inr [], s1) \<and>
               put_sbuf_line M NoFault (t2 @ [NL]) s1 = (Inr [], s2) \<and>
               adr (heap s2 (Node 0)) = 0 \<and> llen (heap s2 (Node 0)) = 5 \<and>
               adr (heap s2 (Node 1)) = 5 \<and> llen (heap s2 (Node 1)) = 5"
    using p1 p2 k1 k2 a2 ll2 by blast
qed

theorem put_sbuf_line_descriptor_witness:
  "init_buffers NoFault startup = Some (the (init_buffers NoFault startup)) \<and>
   sfp (the (init_buffers NoFault startup)) = Some \<lparr>bytes = [], fpos = 0\<rparr> \<and>
   fst (put_sbuf_line 4096 NoFault (''hello'' @ [NL]) (the (init_buffers NoFault startup)))
     = Inr [] \<and>
   sfpos (snd (put_sbuf_line 4096 NoFault (''hello'' @ [NL])
                 (the (init_buffers NoFault startup)))) = 5 \<and>
   (\<exists>s1 s2. put_sbuf_line 4096 NoFault (''hello'' @ [NL]) (the (init_buffers NoFault startup))
               = (Inr [], s1) \<and>
            put_sbuf_line 4096 NoFault (''world'' @ [NL]) s1 = (Inr [], s2) \<and>
            adr (heap s2 (Node 0)) = 0 \<and> llen (heap s2 (Node 0)) = 5 \<and>
            adr (heap s2 (Node 1)) = 5 \<and> llen (heap s2 (Node 1)) = 5)"
proof -
  let ?s0 = "the (init_buffers NoFault startup)"
  let ?r = "put_sbuf_line 4096 NoFault (''hello'' @ [NL]) ?s0"
  have a: "init_buffers NoFault startup = Some ?s0"
    by (simp add: init_buffers_def open_sbuf_def)
  have b: "length ''hello'' = 5 \<and> length ''world'' = 5 \<and>
           NL \<notin> set ''hello'' \<and> NL \<notin> set ''world'' \<and> (5::nat) < 4096"
    by (simp add: NL_def)
  have c: "sfp ?s0 = Some \<lparr>bytes = [], fpos = 0\<rparr>"
    by code_simp
  have d: "fst ?r = Inr []"
    by code_simp
  then have e: "?r = (Inr [], snd ?r)"
    by (metis prod.collapse)
  have f: "scan_nl (''hello'' @ [NL]) = Some (''hello'', [])" "\<not> seek_write ?s0" "sfpos ?s0 = 0"
    by code_simp+
  note t = put_sbuf_line_descriptor [of 4096 NoFault "''hello'' @ [NL]" ?s0 "[]" "snd ?r"
      "\<lparr>bytes = [], fpos = 0\<rparr>" ?s0 "''hello''" "''world''" 4096]
  have g: "sfpos (snd ?r) = 5"
    using t e c f by auto
  show ?thesis
    using a b c d g t by blast
qed

text \<open>
  The round trip on a store whose cursor is in step with the file position (or whose
  \<^verbatim>\<open>seek_write\<close> flag makes the write seek first), with no failure of the environment:
  for every text \<open>t\<close> without a newline and shorter than \<open>LINECHARS\<close>, \<^verbatim>\<open>put_sbuf_line\<close> of
  \<open>t\<close> followed by a newline succeeds, and \<^verbatim>\<open>get_sbuf_line\<close> of the node it created
  returns exactly \<open>t\<close>.  (The node it created is \<open>Node (brk s)\<close>; in a well-formed
  registry it is the new current line, see \<open>put_sbuf_line_registry\<close>.)
\<close>

lemma put_get_round_trip_synced:
  assumes fp: "sfp s = Some f" and sync: "seek_write s \<or> sfpos s = int (fpos f)"
    and nl: "NL \<notin> set t" and len: "length t < L"
  shows "\<exists>s1 s2. put_sbuf_line L NoFault (t @ NL # rest) s = (Inr rest, s1) \<and>
                 get_sbuf_line NoFault (Node (brk s)) s1 = (Inr (Some t), s2)"
proof -
  let ?pos = "if seek_write s then length (bytes f) else fpos f"
  let ?cur = "if seek_write s then int (length (bytes f)) else sfpos s"
  have sc: "scan_nl (t @ NL # rest) = Some (t, rest)"
    using scan_nl_line [OF nl] .
  obtain s1 where ok: "put_sbuf_line L NoFault (t @ NL # rest) s = (Inr rest, s1)"
    using put_sbuf_line_NoFault_ok [OF sc len fp] by blast
  note q = put_sbuf_line_post [OF ok fp sc refl refl]
  have eq: "?cur = int ?pos"
    using sync by auto
  obtain f' where fp1: "sfp s1 = Some f'"
    and w: "fwrite NoFault t (length t) (Some (f\<lparr>fpos := ?pos\<rparr>)) = (length t, Some f')"
    using q(8) by blast
  obtain pre post where pre: "length pre = ?pos"
    and f': "f' = \<lparr>bytes = pre @ t @ post, fpos = ?pos + length t\<rparr>"
    using fwrite_NoFault_shape [of "f\<lparr>fpos := ?pos\<rparr>" t] w by auto
  have "fst (get_sbuf_line NoFault (Node (brk s)) s1) = Inr (Some t)"
  proof (rule get_sbuf_line_reads [where pos = ?pos and q = "?pos + length t"])
    show "Node (brk s) \<noteq> Buffer_head" by simp
    show "sfp s1 = Some \<lparr>bytes = pre @ t @ post, fpos = ?pos + length t\<rparr>"
      using fp1 f' by simp
    show "length pre = ?pos" using pre .
    show "adr (heap s1 (Node (brk s))) = int ?pos"
      using q(1) eq by simp
    show "llen (heap s1 (Node (brk s))) = length t"
      using q(2) .
    show "sfpos s1 = int (?pos + length t)"
      using q(3) eq by simp
  qed
  then have "get_sbuf_line NoFault (Node (brk s)) s1
               = (Inr (Some t), snd (get_sbuf_line NoFault (Node (brk s)) s1))"
    by (metis prod.collapse)
  then show ?thesis
    using ok by blast
qed

text \<open>
  C1 (round trip) does not hold of the code in every state the code itself reaches.
  After \<^verbatim>\<open>init_buffers\<close>, an append of "hello" whose \<^verbatim>\<open>fwrite\<close> moves only 2 bytes
  fails with "cannot write temp file" and leaves \<^verbatim>\<open>sfpos\<close> at -1 and \<^verbatim>\<open>seek_write\<close>
  clear.  The next append, of "abc", meets no failure: it does not seek, records the
  offset -1 in the node it creates (the new current line), and succeeds; reading that
  node fails with "cannot seek temp file".  One more append, of "xy", records the offset
  2 while its bytes are at offset 5, and reading that node returns "ab".
\<close>

theorem round_trip_after_short_write:
  "let s0 = the (init_buffers NoFault startup);
       r1 = put_sbuf_line 4096 (ShortIO 2) (''hello'' @ [NL]) s0;
       r2 = put_sbuf_line 4096 NoFault (''abc'' @ [NL]) (snd r1);
       r3 = put_sbuf_line 4096 NoFault (''xy'' @ [NL]) (snd r2)
   in fst r1 = Inl CannotWrite \<and> sfpos (snd r1) = - 1 \<and> \<not> seek_write (snd r1) \<and>
      fst r2 = Inr [] \<and> adr (heap (snd r2) (Node 1)) = - 1 \<and>
      llen (heap (snd r2) (Node 1)) = 3 \<and>
      fst (get_addressed_line_node (current_addr (snd r2)) (snd r2)) = Node 1 \<and>
      fst (get_sbuf_line NoFault (Node 1) (snd r2)) = Inl CannotSeek \<and>
      fst r3 = Inr [] \<and>
      fst (get_sbuf_line NoFault (Node 2) (snd r3)) = Inr (Some ''ab'')"
  by code_simp

text \<open>
  C7 (boundary).  With no failure of the environment a line of exactly
  \<open>LINECHARS - 1\<close> bytes is accepted.  A line of exactly \<open>LINECHARS\<close> bytes is rejected with
  "line too long" whenever the node allocation that precedes the check succeeds, and then
  the stream, the cursor, the flag, the nodes and the addresses are as before: the
  rejection comes before any seek or write.
\<close>

theorem put_sbuf_line_boundary:
  "(sfp s = Some f \<and> NL \<notin> set t \<and> length t + 1 = L \<longrightarrow>
      (\<exists>s'. put_sbuf_line L NoFault (t @ NL # rest) s = (Inr rest, s'))) \<and>
   (NL \<notin> set u \<and> length u = L \<and> env \<noteq> AllocFails \<longrightarrow>
      (\<exists>s'. put_sbuf_line L env (u @ NL # rest) s = (Inl LineTooLong, s') \<and>
            sfp s' = sfp s \<and> sfpos s' = sfpos s \<and> seek_write s' = seek_write s \<and>
            heap s' = heap s \<and> addr_last s' = addr_last s \<and>
            current_addr s' = current_addr s))"
proof (intro conjI impI)
  assume a: "sfp s = Some f \<and> NL \<notin> set t \<and> length t + 1 = L"
  then have "scan_nl (t @ NL # rest) = Some (t, rest)"
    using scan_nl_line by simp
  moreover have "length t < L" using a by auto
  moreover have "sfp s = Some f" using a by simp
  ultimately show "\<exists>s'. put_sbuf_line L NoFault (t @ NL # rest) s = (Inr rest, s')"
    by (rule put_sbuf_line_NoFault_ok)
next
  assume a: "NL \<notin> set u \<and> length u = L \<and> env \<noteq> AllocFails"
  then have "scan_nl (u @ NL # rest) = Some (u, rest)"
    using scan_nl_line by simp
  moreover have "L \<le> length u" using a by simp
  moreover have "env \<noteq> AllocFails" using a by simp
  ultimately have "put_sbuf_line L env (u @ NL # rest) s
                     = (Inl LineTooLong, s\<lparr>brk := Suc (brk s)\<rparr>)"
    by (rule put_sbuf_line_too_long)
  then show "\<exists>s'. put_sbuf_line L env (u @ NL # rest) s = (Inl LineTooLong, s') \<and>
            sfp s' = sfp s \<and> sfpos s' = sfpos s \<and> seek_write s' = seek_write s \<and>
            heap s' = heap s \<and> addr_last s' = addr_last s \<and>
            current_addr s' = current_addr s"
    by simp
qed

theorem put_sbuf_line_boundary_witness:
  "sfp (the (init_buffers NoFault startup)) = Some \<lparr>bytes = [], fpos = 0\<rparr> \<and>
   NL \<notin> set ''abcd'' \<and> length ''abcd'' + 1 = (5 :: nat) \<and>
   NL \<notin> set ''abcde'' \<and> length ''abcde'' = (5 :: nat) \<and>
   fst (put_sbuf_line 5 NoFault (''abcd'' @ NL # []) (the (init_buffers NoFault startup)))
     = Inr [] \<and>
   fst (put_sbuf_line 5 NoFault (''abcde'' @ NL # []) (the (init_buffers NoFault startup)))
     = Inl LineTooLong \<and>
   sfp (snd (put_sbuf_line 5 NoFault (''abcde'' @ NL # []) (the (init_buffers NoFault startup))))
     = Some \<lparr>bytes = [], fpos = 0\<rparr> \<and>
   sfpos (snd (put_sbuf_line 5 NoFault (''abcde'' @ NL # []) (the (init_buffers NoFault startup))))
     = 0"
proof -
  let ?s0 = "the (init_buffers NoFault startup)"
  have a: "sfp ?s0 = Some \<lparr>bytes = [], fpos = 0\<rparr>" and b: "sfpos ?s0 = 0"
    by code_simp+
  have c: "NL \<notin> set ''abcd''" "length ''abcd'' + 1 = (5 :: nat)"
    "NL \<notin> set ''abcde''" "length ''abcde'' = (5 :: nat)"
    by (simp_all add: NL_def)
  note t = put_sbuf_line_boundary [of ?s0 "\<lparr>bytes = [], fpos = 0\<rparr>" "''abcd''" 5 "[]"
      "''abcde''" NoFault]
  obtain s1 where "put_sbuf_line 5 NoFault (''abcd'' @ NL # []) ?s0 = (Inr [], s1)"
    using t a c by blast
  then have d: "fst (put_sbuf_line 5 NoFault (''abcd'' @ NL # []) ?s0) = Inr []"
    by simp
  obtain s2 where "put_sbuf_line 5 NoFault (''abcde'' @ NL # []) ?s0 = (Inl LineTooLong, s2)"
    and "sfp s2 = sfp ?s0" and "sfpos s2 = sfpos ?s0"
    using t c by blast
  then have e: "fst (put_sbuf_line 5 NoFault (''abcde'' @ NL # []) ?s0) = Inl LineTooLong"
    "sfp (snd (put_sbuf_line 5 NoFault (''abcde'' @ NL # []) ?s0))
       = Some \<lparr>bytes = [], fpos = 0\<rparr>"
    "sfpos (snd (put_sbuf_line 5 NoFault (''abcde'' @ NL # []) ?s0)) = 0"
    using a b by simp_all
  show ?thesis
    using a c d e by blast
qed

text \<open>
  C5, as the code has it.  A successful \<^verbatim>\<open>get_sbuf_line\<close> on a state whose cursor equals
  the real file position leaves them equal, and so does a successful \<^verbatim>\<open>put_sbuf_line\<close>
  on a state whose cursor equals the file position or whose \<^verbatim>\<open>seek_write\<close> flag is set.
  A short write in \<^verbatim>\<open>put_sbuf_line\<close> (\<^verbatim>\<open>fwrite\<close> moves fewer bytes than the line has)
  fails the call with "cannot write temp file" and sets the cursor to the sentinel -1, and
  whenever the call fails so, the cursor is -1.  A failing seek fails the call in flight
  with "cannot seek temp file"; in \<^verbatim>\<open>put_sbuf_line\<close> it leaves the stream, the cursor
  and the flag as they were.
\<close>

theorem cursor_discipline:
  "(cursor_synced s \<and> get_sbuf_line env p s = (Inr r, s') \<longrightarrow> cursor_synced s') \<and>
   ((seek_write s \<or> cursor_synced s) \<and> put_sbuf_line L env cs s = (Inr rest, s')
      \<longrightarrow> cursor_synced s') \<and>
   (sfp s = Some f \<and> scan_nl cs = Some (t, rest) \<and> length t < L \<and> k < length t \<longrightarrow>
      (\<exists>s''. put_sbuf_line L (ShortIO k) cs s = (Inl CannotWrite, s'') \<and> sfpos s'' = - 1)) \<and>
   (put_sbuf_line L env cs s = (Inl CannotWrite, s') \<longrightarrow> sfpos s' = - 1) \<and>
   (p \<noteq> Buffer_head \<and> sfpos s \<noteq> adr (heap s p)
      \<longrightarrow> fst (get_sbuf_line SeekFails p s) = Inl CannotSeek) \<and>
   (seek_write s \<and> scan_nl cs = Some (t, rest) \<and> length t < L \<longrightarrow>
      (\<exists>s''. put_sbuf_line L SeekFails cs s = (Inl CannotSeek, s'') \<and>
             sfp s'' = sfp s \<and> sfpos s'' = sfpos s \<and> seek_write s''))"
proof (intro conjI impI)
  assume "cursor_synced s \<and> get_sbuf_line env p s = (Inr r, s')"
  then show "cursor_synced s'"
    using get_sbuf_line_synced by blast
next
  assume "(seek_write s \<or> cursor_synced s) \<and> put_sbuf_line L env cs s = (Inr rest, s')"
  then show "cursor_synced s'"
    using put_sbuf_line_synced by blast
next
  assume a: "sfp s = Some f \<and> scan_nl cs = Some (t, rest) \<and> length t < L \<and> k < length t"
  then have "scan_nl cs = Some (t, rest)" "length t < L" "sfp s = Some f" "k < length t"
    by simp_all
  then show "\<exists>s''. put_sbuf_line L (ShortIO k) cs s = (Inl CannotWrite, s'') \<and> sfpos s'' = - 1"
    by (rule put_sbuf_line_short_write)
next
  assume "put_sbuf_line L env cs s = (Inl CannotWrite, s')"
  then show "sfpos s' = - 1"
    by (rule put_sbuf_line_write_fails)
next
  assume "p \<noteq> Buffer_head \<and> sfpos s \<noteq> adr (heap s p)"
  then show "fst (get_sbuf_line SeekFails p s) = Inl CannotSeek"
    using get_sbuf_line_seek_fails [of p s] by simp
next
  assume a: "seek_write s \<and> scan_nl cs = Some (t, rest) \<and> length t < L"
  then have "put_sbuf_line L SeekFails cs s = (Inl CannotSeek, s\<lparr>brk := Suc (brk s)\<rparr>)"
    using put_sbuf_line_seek_fails [of cs t rest L s] by simp
  then show "\<exists>s''. put_sbuf_line L SeekFails cs s = (Inl CannotSeek, s'') \<and>
             sfp s'' = sfp s \<and> sfpos s'' = sfpos s \<and> seek_write s''"
    using a by simp
qed

text \<open>The states used below: after \<^verbatim>\<open>init_buffers\<close>, after appending "hello", after
  appending "world" as well, and after then reading the first line.\<close>

lemma demo_states:
  defines "s0 \<equiv> the (init_buffers NoFault startup)"
  defines "s1 \<equiv> snd (put_sbuf_line 4096 NoFault (''hello'' @ [NL]) s0)"
  defines "s2 \<equiv> snd (put_sbuf_line 4096 NoFault (''world'' @ [NL]) s1)"
  defines "s3 \<equiv> snd (get_sbuf_line NoFault (Node 0) s2)"
  shows "cursor_synced s0" and "cursor_synced s1" and "cursor_synced s2" and "cursor_synced s3"
    and "fst (put_sbuf_line 4096 NoFault (''hello'' @ [NL]) s0) = Inr []"
    and "fst (put_sbuf_line 4096 NoFault (''world'' @ [NL]) s1) = Inr []"
    and "fst (get_sbuf_line NoFault (Node 0) s2) = Inr (Some ''hello'')"
    and "sfpos s2 = 10" and "adr (heap s2 (Node 0)) = 0"
    and "sfpos s3 = 5" and "seek_write s3" and "sfp s3 = Some \<lparr>bytes = ''helloworld'', fpos = 5\<rparr>"
  unfolding s0_def s1_def s2_def s3_def by code_simp+

theorem cursor_discipline_witness:
  "cursor_synced (snd (put_sbuf_line 4096 NoFault (''world'' @ [NL])
      (snd (put_sbuf_line 4096 NoFault (''hello'' @ [NL]) (the (init_buffers NoFault startup)))))) \<and>
   cursor_synced (snd (get_sbuf_line NoFault (Node 0)
      (snd (put_sbuf_line 4096 NoFault (''world'' @ [NL])
        (snd (put_sbuf_line 4096 NoFault (''hello'' @ [NL])
          (the (init_buffers NoFault startup)))))))) \<and>
   fst (put_sbuf_line 4096 (ShortIO 2) (''hello'' @ [NL]) (the (init_buffers NoFault startup)))
     = Inl CannotWrite \<and>
   sfpos (snd (put_sbuf_line 4096 (ShortIO 2) (''hello'' @ [NL])
      (the (init_buffers NoFault startup)))) = - 1 \<and>
   fst (get_sbuf_line SeekFails (Node 0)
      (snd (put_sbuf_line 4096 NoFault (''world'' @ [NL])
        (snd (put_sbuf_line 4096 NoFault (''hello'' @ [NL])
          (the (init_buffers NoFault startup))))))) = Inl CannotSeek \<and>
   fst (put_sbuf_line 4096 SeekFails (''again'' @ [NL])
      (snd (get_sbuf_line NoFault (Node 0)
        (snd (put_sbuf_line 4096 NoFault (''world'' @ [NL])
          (snd (put_sbuf_line 4096 NoFault (''hello'' @ [NL])
            (the (init_buffers NoFault startup))))))))) = Inl CannotSeek"
proof -
  let ?s0 = "the (init_buffers NoFault startup)"
  let ?s1 = "snd (put_sbuf_line 4096 NoFault (''hello'' @ [NL]) ?s0)"
  let ?s2 = "snd (put_sbuf_line 4096 NoFault (''world'' @ [NL]) ?s1)"
  let ?s3 = "snd (get_sbuf_line NoFault (Node 0) ?s2)"
  let ?w = "put_sbuf_line 4096 (ShortIO 2) (''hello'' @ [NL]) ?s0"
  have p1: "put_sbuf_line 4096 NoFault (''hello'' @ [NL]) ?s0 = (Inr [], ?s1)"
    using demo_states(5) by (metis prod.collapse)
  have p2: "put_sbuf_line 4096 NoFault (''world'' @ [NL]) ?s1 = (Inr [], ?s2)"
    using demo_states(6) by (metis prod.collapse)
  have g3: "get_sbuf_line NoFault (Node 0) ?s2 = (Inr (Some ''hello''), ?s3)"
    using demo_states(7) by (metis prod.collapse)
  have a: "cursor_synced ?s2"
    using cursor_discipline [where s = ?s1 and s' = ?s2 and L = 4096 and env = NoFault
        and cs = "''world'' @ [NL]" and rest = "[]"]
      demo_states(2) p2 by blast
  have b: "cursor_synced ?s3"
    using cursor_discipline [where s = ?s2 and env = NoFault and p = "Node 0"
        and r = "Some ''hello''" and s' = ?s3] a g3 by blast
  have "sfp ?s0 = Some \<lparr>bytes = [], fpos = 0\<rparr> \<and>
        scan_nl (''hello'' @ [NL]) = Some (''hello'', []) \<and>
        length ''hello'' < (4096 :: nat) \<and> (2 :: nat) < length ''hello''"
    using scan_nl_line [of "''hello''" "[]"] by (simp add: NL_def) code_simp
  then obtain sw where c: "?w = (Inl CannotWrite, sw)" and "sfpos sw = - 1"
    using cursor_discipline [where s = ?s0 and f = "\<lparr>bytes = [], fpos = 0\<rparr>" and L = 4096
        and cs = "''hello'' @ [NL]" and rest = "[]" and t = "''hello''" and k = 2] by blast
  then have "fst ?w = Inl CannotWrite" and d: "sfpos (snd ?w) = - 1"
    by simp_all
  have "Node 0 \<noteq> Buffer_head \<and> sfpos ?s2 \<noteq> adr (heap ?s2 (Node 0))"
    using demo_states(8,9) by simp
  then have e: "fst (get_sbuf_line SeekFails (Node 0) ?s2) = Inl CannotSeek"
    using cursor_discipline [where s = ?s2 and p = "Node 0"] by blast
  have "seek_write ?s3 \<and> scan_nl (''again'' @ [NL]) = Some (''again'', []) \<and>
        length ''again'' < (4096 :: nat)"
    using demo_states(11) scan_nl_line [of "''again''" "[]"] by (simp add: NL_def)
  then obtain s'' where "put_sbuf_line 4096 SeekFails (''again'' @ [NL]) ?s3 = (Inl CannotSeek, s'')"
    using cursor_discipline [where s = ?s3 and L = 4096 and cs = "''again'' @ [NL]"
        and rest = "[]" and t = "''again''"] by blast
  then have f: "fst (put_sbuf_line 4096 SeekFails (''again'' @ [NL]) ?s3) = Inl CannotSeek"
    by simp
  show ?thesis
    using a b \<open>fst ?w = Inl CannotWrite\<close> d e f by blast
qed

text \<open>
  C5 as stated fails.  After "hello" and "world" were appended and the first line was
  read (cursor 5, \<^verbatim>\<open>seek_write\<close> set), an append whose seek to the end fails returns
  "cannot seek temp file" with the cursor still 5, not the sentinel -1.  And a read of the
  first line whose seek fails, in the state after the two appends (cursor and file
  position 10), returns "cannot seek temp file" with the cursor 0: neither the sentinel
  nor the file position, which is still 10.
\<close>

theorem seek_failure_counterexample:
  "fst (put_sbuf_line 4096 SeekFails (''again'' @ [NL])
      (snd (get_sbuf_line NoFault (Node 0)
        (snd (put_sbuf_line 4096 NoFault (''world'' @ [NL])
          (snd (put_sbuf_line 4096 NoFault (''hello'' @ [NL])
            (the (init_buffers NoFault startup))))))))) = Inl CannotSeek \<and>
   sfpos (snd (put_sbuf_line 4096 SeekFails (''again'' @ [NL])
      (snd (get_sbuf_line NoFault (Node 0)
        (snd (put_sbuf_line 4096 NoFault (''world'' @ [NL])
          (snd (put_sbuf_line 4096 NoFault (''hello'' @ [NL])
            (the (init_buffers NoFault startup)))))))))) = 5 \<and>
   fst (get_sbuf_line SeekFails (Node 0)
      (snd (put_sbuf_line 4096 NoFault (''world'' @ [NL])
        (snd (put_sbuf_line 4096 NoFault (''hello'' @ [NL])
          (the (init_buffers NoFault startup))))))) = Inl CannotSeek \<and>
   sfpos (snd (get_sbuf_line SeekFails (Node 0)
      (snd (put_sbuf_line 4096 NoFault (''world'' @ [NL])
        (snd (put_sbuf_line 4096 NoFault (''hello'' @ [NL])
          (the (init_buffers NoFault startup)))))))) = 0 \<and>
   sfp (snd (get_sbuf_line SeekFails (Node 0)
      (snd (put_sbuf_line 4096 NoFault (''world'' @ [NL])
        (snd (put_sbuf_line 4096 NoFault (''hello'' @ [NL])
          (the (init_buffers NoFault startup))))))))
     = Some \<lparr>bytes = ''helloworld'', fpos = 10\<rparr>"
  by code_simp

text \<open>
  What the stale cursor of the failed read costs: in the state after the two appends and
  a read of the first line (cursor and file position 5), a read of the first line whose
  seek fails leaves the cursor at 0, and the next read of the first line therefore does
  not seek and returns the text of the second line.
\<close>

lemma stale_cursor_reads_wrong_line:
  "fst (get_sbuf_line NoFault (Node 0)
     (snd (get_sbuf_line SeekFails (Node 0)
       (snd (get_sbuf_line NoFault (Node 0)
         (snd (put_sbuf_line 4096 NoFault (''world'' @ [NL])
           (snd (put_sbuf_line 4096 NoFault (''hello'' @ [NL])
             (the (init_buffers NoFault startup)))))))))))
   = Inr (Some ''world'')"
  by code_simp

text \<open>
  C6, as the code has it.  \<^verbatim>\<open>close_sbuf\<close> returns 0 exactly when no file is open or
  \<^verbatim>\<open>fclose\<close> succeeds, and then the cursor is 0, the flag is clear and \<^verbatim>\<open>sfp\<close> is NULL.
  When \<^verbatim>\<open>fclose\<close> fails it reports "cannot close temp file" and returns before the
  reset: the state, cursor and flag included, is as before.
\<close>

theorem close_sbuf_reset:
  "(fst (close_sbuf env s) = Inr 0 \<longleftrightarrow> sfp s = None \<or> env \<noteq> CloseFails) \<and>
   (fst (close_sbuf env s) = Inr 0 \<longrightarrow>
      sfpos (snd (close_sbuf env s)) = 0 \<and> \<not> seek_write (snd (close_sbuf env s)) \<and>
      sfp (snd (close_sbuf env s)) = None) \<and>
   (sfp s \<noteq> None \<and> env = CloseFails \<longrightarrow> close_sbuf env s = (Inl CannotClose, s))"
  unfolding close_sbuf_cases by auto

theorem close_sbuf_reset_witness:
  "fst (close_sbuf NoFault (snd (get_sbuf_line NoFault (Node 0)
      (snd (put_sbuf_line 4096 NoFault (''hello'' @ [NL])
         (the (init_buffers NoFault startup))))))) = Inr 0 \<and>
   sfpos (snd (close_sbuf NoFault (snd (get_sbuf_line NoFault (Node 0)
      (snd (put_sbuf_line 4096 NoFault (''hello'' @ [NL])
         (the (init_buffers NoFault startup)))))))) = 0 \<and>
   \<not> seek_write (snd (close_sbuf NoFault (snd (get_sbuf_line NoFault (Node 0)
      (snd (put_sbuf_line 4096 NoFault (''hello'' @ [NL])
         (the (init_buffers NoFault startup))))))))"
proof -
  let ?s = "snd (get_sbuf_line NoFault (Node 0)
      (snd (put_sbuf_line 4096 NoFault (''hello'' @ [NL]) (the (init_buffers NoFault startup)))))"
  note t = close_sbuf_reset [of NoFault ?s]
  have a: "fst (close_sbuf NoFault ?s) = Inr 0"
    using t by simp
  then show ?thesis
    using t by blast
qed

text \<open>
  C6 as stated fails.  After "hello" was appended and read back the cursor is 5 and
  \<^verbatim>\<open>seek_write\<close> is set; a \<^verbatim>\<open>close_sbuf\<close> whose \<^verbatim>\<open>fclose\<close> fails reports ERR and leaves
  the cursor at 5 and the flag set.
\<close>

theorem close_sbuf_failure_counterexample:
  "fst (close_sbuf CloseFails (snd (get_sbuf_line NoFault (Node 0)
      (snd (put_sbuf_line 4096 NoFault (''hello'' @ [NL])
         (the (init_buffers NoFault startup))))))) = Inl CannotClose \<and>
   sfpos (snd (close_sbuf CloseFails (snd (get_sbuf_line NoFault (Node 0)
      (snd (put_sbuf_line 4096 NoFault (''hello'' @ [NL])
         (the (init_buffers NoFault startup)))))))) = 5 \<and>
   seek_write (snd (close_sbuf CloseFails (snd (get_sbuf_line NoFault (Node 0)
      (snd (put_sbuf_line 4096 NoFault (''hello'' @ [NL])
         (the (init_buffers NoFault startup))))))))"
  by code_simp

text \<open>
  C10.  \<^verbatim>\<open>get_sbuf_line\<close> on the sentinel \<^verbatim>\<open>buffer_head\<close> returns NULL without
  an error and leaves the whole state as it was, under every environment; on any other
  node it sets \<^verbatim>\<open>seek_write\<close>, whatever else happens.
\<close>

theorem get_sbuf_line_sentinel:
  "get_sbuf_line env Buffer_head s = (Inr None, s) \<and>
   (p \<noteq> Buffer_head \<longrightarrow> seek_write (snd (get_sbuf_line env p s)))"
  using get_sbuf_line_head get_sbuf_line_sets_seek_write by simp

theorem get_sbuf_line_sentinel_witness:
  "get_sbuf_line NoFault Buffer_head
      (snd (put_sbuf_line 4096 NoFault (''hello'' @ [NL]) (the (init_buffers NoFault startup))))
     = (Inr None,
        snd (put_sbuf_line 4096 NoFault (''hello'' @ [NL]) (the (init_buffers NoFault startup)))) \<and>
   \<not> seek_write
      (snd (put_sbuf_line 4096 NoFault (''hello'' @ [NL]) (the (init_buffers NoFault startup)))) \<and>
   seek_write (snd (get_sbuf_line NoFault (Node 0)
      (snd (put_sbuf_line 4096 NoFault (''hello'' @ [NL]) (the (init_buffers NoFault startup))))))"
proof -
  let ?s = "snd (put_sbuf_line 4096 NoFault (''hello'' @ [NL]) (the (init_buffers NoFault startup)))"
  note t = get_sbuf_line_sentinel [of NoFault ?s "Node 0"]
  have a: "\<not> seek_write ?s"
    by code_simp
  have b: "seek_write (snd (get_sbuf_line NoFault (Node 0) ?s))"
    using t by simp
  show ?thesis
    using t a b by blast
qed

end
